theory Spec2Isabelle
  imports Main "HOL-Library.Word"
begin

unbundle bit_operations_syntax

section \<open>JavaScript numbers, bitwise operators and typed arrays\<close>

text \<open>
  The values the codec handles are integral JavaScript numbers (lengths, offsets, tags,
  byte values). They are modelled as \<open>int\<close>; the bitwise operators of the language
  convert their operands to 32 bits first (ToInt32 / ToUint32), operate there and give the
  result back as a signed (\<open>&\<close>, \<open>|\<close>, \<open><<\<close>) or unsigned (\<open>>>>\<close>) 32-bit
  value. A shift count is taken modulo 32. The element of a typed array read at an index
  that is not in range is \<open>undefined\<close>, which the bitwise operators convert to 0.
\<close>

type_synonym byte = "8 word"
type_synonym bytes = "byte list"

definition js_and :: "int \<Rightarrow> int \<Rightarrow> int" where
  "js_and a b = sint ((word_of_int a :: 32 word) AND word_of_int b)"

definition js_or :: "int \<Rightarrow> int \<Rightarrow> int" where
  "js_or a b = sint ((word_of_int a :: 32 word) OR word_of_int b)"

definition js_shl :: "int \<Rightarrow> int \<Rightarrow> int" where
  "js_shl a s = sint (push_bit (nat (s mod 32)) (word_of_int a :: 32 word))"

definition js_ushr :: "int \<Rightarrow> int \<Rightarrow> int" where
  "js_ushr a s = uint (drop_bit (nat (s mod 32)) (word_of_int a :: 32 word))"

text \<open>\<open>bytes[i]\<close>: the number stored at index \<open>i\<close>, or \<open>undefined\<close> (\<open>None\<close>).\<close>

definition elem :: "bytes \<Rightarrow> int \<Rightarrow> int option" where
  "elem bs i = (if 0 \<le> i \<and> i < int (length bs) then Some (uint (bs ! nat i)) else None)"

text \<open>ToInt32 of an element that was read: \<open>undefined\<close> becomes 0.\<close>

definition to_number :: "int option \<Rightarrow> int" where
  "to_number v = (case v of None \<Rightarrow> 0 | Some n \<Rightarrow> n)"

text \<open>
  \<open>Uint8Array.prototype.slice(start, end)\<close>: a negative index counts from the end, both
  indices are clamped to the array, and an end before the start gives the empty array.
\<close>

definition slice :: "'a list \<Rightarrow> int \<Rightarrow> int \<Rightarrow> 'a list" where
  "slice xs start end =
     (let len = int (length xs);
          k = (if start < 0 then max (len + start) 0 else min start len);
          final = (if end < 0 then max (len + end) 0 else min end len)
      in take (nat (final - k)) (drop (nat k) xs))"

definition slice_from :: "'a list \<Rightarrow> int \<Rightarrow> 'a list" where
  "slice_from xs start = slice xs start (int (length xs))"

section \<open>Errors\<close>

text \<open>
  Every \<open>throw\<close> of the source, and every exception of a platform function it calls, is
  a value of this type; a function that can throw returns \<open>error + 'a\<close>.
\<close>

datatype error =
    VarintTooLarge
  | VarintIncomplete
  | UnsupportedMulticodec int
  | InvalidAuthenticatorDataLength
  | InvalidClientDataJSONLength
  | InvalidEd25519SignatureLength nat
  | InvalidP256SignatureLength nat
  | FailedToParseClientDataJSON
  | TypeError
  | RangeError
  | InvalidCharacterError
  | InvalidDIDFormat
  | Base58DecodeError

section \<open>utils.ts: the varint codec\<close>

text \<open>
  \<open>varintEncode\<close>: the loop pushes \<open>(value & 0x7f) | 0x80\<close> while \<open>value >= 0x80\<close>,
  shifting with \<open>>>>= 7\<close>, then pushes \<open>value & 0x7f\<close>; the number array becomes a
  \<open>Uint8Array\<close>.
\<close>

function varintEncode_loop :: "int \<Rightarrow> int list \<Rightarrow> int list" where
  "varintEncode_loop v acc =
     (if v \<ge> 0x80
      then varintEncode_loop (js_ushr v 7) (acc @ [js_or (js_and v 0x7f) 0x80])
      else acc @ [js_and v 0x7f])"
  by pat_completeness auto
termination
proof (relation "measure (\<lambda>(v, acc). nat v)")
  show "wf (measure (\<lambda>(v :: int, acc :: int list). nat v))" by simp
next
  fix v :: int and acc :: "int list"
  assume v: "128 \<le> v"
  have "js_ushr v 7 = (v mod 2 ^ 32) div 2 ^ 7"
    unfolding js_ushr_def
    by (simp add: uint_word_of_int drop_bit_eq_div take_bit_eq_mod uint_div_distrib)
  moreover have "v mod 2 ^ 32 \<le> v" using v by (simp add: zmod_le_nonneg_dividend)
  then have "(v mod 2 ^ 32) div 2 ^ 7 \<le> v div 2 ^ 7" by (rule zdiv_mono1) simp
  moreover have "v div 2 ^ 7 < v" using v by simp
  ultimately have "js_ushr v 7 < v" by simp
  then show "((js_ushr v 7, acc @ [js_or (js_and v 0x7f) 0x80]), (v, acc))
      \<in> measure (\<lambda>(v, acc). nat v)"
    using v by simp
qed

definition varintEncode :: "int \<Rightarrow> bytes" where
  "varintEncode v = map word_of_int (varintEncode_loop v [])"

text \<open>
  \<open>varintDecode\<close>: \<open>value |= (byte & 0x7f) << shift\<close> for each byte read, returning at
  the first byte without the continuation bit; it throws once \<open>shift\<close> exceeds 53 and when
  the buffer ends first.
\<close>

function varintDecode_loop :: "bytes \<Rightarrow> int \<Rightarrow> int \<Rightarrow> int \<Rightarrow> nat \<Rightarrow> error + (int \<times> nat)" where
  "varintDecode_loop bs offset v shift bytesRead =
     (if offset + int bytesRead < int (length bs) then
        (let b = elem bs (offset + int bytesRead);
             bytesRead' = bytesRead + 1;
             v' = js_or v (js_shl (js_and (to_number b) 0x7f) shift)
         in if js_and (to_number b) 0x80 = 0 then Inr (v', bytesRead')
            else if shift + 7 > 53 then Inl VarintTooLarge
            else varintDecode_loop bs offset v' (shift + 7) bytesRead')
      else Inl VarintIncomplete)"
  by pat_completeness auto
termination
  by (relation "measure (\<lambda>(bs, offset, v, shift, bytesRead).
        nat (int (length bs) - offset - int bytesRead))") auto

definition varintDecode :: "bytes \<Rightarrow> int \<Rightarrow> error + (int \<times> nat)" where
  "varintDecode bs offset = varintDecode_loop bs offset 0 0 0"

section \<open>utils.ts: concat and bytesEqual\<close>

text \<open>
  \<open>result.set(arr, offset)\<close> copies \<open>arr\<close> into \<open>result\<close> from \<open>offset\<close> on and
  throws a RangeError when it does not fit.
\<close>

definition set_at :: "bytes \<Rightarrow> bytes \<Rightarrow> nat \<Rightarrow> error + bytes" where
  "set_at result arr offset =
     (if offset + length arr > length result then Inl RangeError
      else Inr (take offset result @ arr @ drop (offset + length arr) result))"

fun concat_loop :: "bytes list \<Rightarrow> bytes \<Rightarrow> nat \<Rightarrow> error + bytes" where
  "concat_loop [] result offset = Inr result"
| "concat_loop (arr # arrays) result offset =
     (case set_at result arr offset of
        Inl e \<Rightarrow> Inl e
      | Inr result' \<Rightarrow> concat_loop arrays result' (offset + length arr))"

definition concat_arrays :: "bytes list \<Rightarrow> error + bytes" where
  "concat_arrays arrays =
     (let totalLength = fold (\<lambda>arr sum. sum + length arr) arrays 0;
          result = replicate totalLength 0
      in concat_loop arrays result 0)"

fun bytesEqual_loop :: "bytes \<Rightarrow> bytes \<Rightarrow> bool" where
  "bytesEqual_loop (x # xs) (y # ys) = (if x \<noteq> y then False else bytesEqual_loop xs ys)"
| "bytesEqual_loop _ _ = True"

definition bytesEqual :: "bytes \<Rightarrow> bytes \<Rightarrow> bool" where
  "bytesEqual a b = (if length a \<noteq> length b then False else bytesEqual_loop a b)"

section \<open>multicodec.ts and types.ts\<close>

definition ED25519_PUB :: int where "ED25519_PUB = 0xed"
definition WEBAUTHN_ED25519 :: int where "WEBAUTHN_ED25519 = 0x2ed1"
definition WEBAUTHN_P256 :: int where "WEBAUTHN_P256 = 0x2256"
definition P256_PUB :: int where "P256_PUB = 0x1200"

datatype SignatureAlgorithm = Ed25519 | P256

fun ALGORITHM_TO_MULTICODEC :: "SignatureAlgorithm \<Rightarrow> int" where
  "ALGORITHM_TO_MULTICODEC Ed25519 = WEBAUTHN_ED25519"
| "ALGORITHM_TO_MULTICODEC P256 = WEBAUTHN_P256"

text \<open>\<open>MULTICODEC_TO_ALGORITHM[multicodec] || null\<close>\<close>

definition getAlgorithm :: "int \<Rightarrow> SignatureAlgorithm option" where
  "getAlgorithm multicodec =
     (if multicodec = WEBAUTHN_ED25519 then Some Ed25519
      else if multicodec = WEBAUTHN_P256 then Some P256
      else None)"

record WebAuthnAssertion =
  authenticatorData :: bytes
  clientDataJSON :: bytes
  signature :: bytes

text \<open>
  \<open>DecodedVarsig\<close> has the three fields of an assertion and two more; \<open>algorithm\<close> holds
  what \<open>getAlgorithm\<close> returned, which may be \<open>null\<close>.
\<close>

record DecodedVarsig = WebAuthnAssertion +
  multicodec :: int
  algorithm :: "SignatureAlgorithm option"

section \<open>encoder.ts\<close>

definition encodeWebAuthnVarsig :: "WebAuthnAssertion \<Rightarrow> SignatureAlgorithm \<Rightarrow> error + bytes" where
  "encodeWebAuthnVarsig assertion alg =
     (let multicodecBytes = varintEncode (ALGORITHM_TO_MULTICODEC alg);
          authDataLenBytes = varintEncode (int (length (authenticatorData assertion)));
          clientDataLenBytes = varintEncode (int (length (clientDataJSON assertion)))
      in concat_arrays
           [multicodecBytes, authDataLenBytes, authenticatorData assertion,
            clientDataLenBytes, clientDataJSON assertion, signature assertion])"

section \<open>decoder.ts\<close>

definition decodeWebAuthnVarsig :: "bytes \<Rightarrow> error + DecodedVarsig" where
  "decodeWebAuthnVarsig varsig =
     (case varintDecode varsig 0 of
        Inl e \<Rightarrow> Inl e
      | Inr (mc, multicodecLen) \<Rightarrow>
     let offset1 = 0 + int multicodecLen in
     if mc \<noteq> WEBAUTHN_ED25519 \<and> mc \<noteq> WEBAUTHN_P256 then Inl (UnsupportedMulticodec mc)
     else
     let alg = getAlgorithm mc in
     (case varintDecode varsig offset1 of
        Inl e \<Rightarrow> Inl e
      | Inr (authDataLen, authDataLenLen) \<Rightarrow>
     let offset2 = offset1 + int authDataLenLen in
     if offset2 + authDataLen > int (length varsig) then Inl InvalidAuthenticatorDataLength
     else
     let authData = slice varsig offset2 (offset2 + authDataLen);
         offset3 = offset2 + authDataLen
     in
     (case varintDecode varsig offset3 of
        Inl e \<Rightarrow> Inl e
      | Inr (clientDataLen, clientDataLenLen) \<Rightarrow>
     let offset4 = offset3 + int clientDataLenLen in
     if offset4 + clientDataLen > int (length varsig) then Inl InvalidClientDataJSONLength
     else
     let clientData = slice varsig offset4 (offset4 + clientDataLen);
         offset5 = offset4 + clientDataLen;
         sig = slice_from varsig offset5;
         decoded = \<lparr>authenticatorData = authData, clientDataJSON = clientData,
                    signature = sig, multicodec = mc, algorithm = alg\<rparr>
     in
     if alg = Some Ed25519 then
       (if length sig \<noteq> 64 then Inl (InvalidEd25519SignatureLength (length sig))
        else Inr decoded)
     else if alg = Some P256 then
       (if length sig < 64 \<or> length sig > 74 then Inl (InvalidP256SignatureLength (length sig))
        else Inr decoded)
     else Inr decoded)))"

section \<open>The platform's base64 functions\<close>

text \<open>
  \<open>btoa\<close> and \<open>atob\<close> are functions of the JavaScript platform, not of this repository.
  They are modelled as the platform defines them: \<open>btoa\<close> is the base64 encoding of
  RFC 4648 with padding, applied to a binary string (one character per byte); \<open>atob\<close> is
  the forgiving base64 decoding: ASCII whitespace is removed, one or two trailing \<open>=\<close> are
  removed from an input whose length is a multiple of 4, an input of length 1 modulo 4 or
  with a character outside the alphabet is an InvalidCharacterError, and the bits left
  over in the last group are discarded.
\<close>

definition b64chars :: string where
  "b64chars = ''ABCDEFGHIJKLMNOPQRSTUVWXYZabcdefghijklmnopqrstuvwxyz0123456789+/''"

definition b64char :: "nat \<Rightarrow> char" where
  "b64char i = b64chars ! i"

fun index_in :: "'a list \<Rightarrow> 'a \<Rightarrow> nat option" where
  "index_in [] c = None"
| "index_in (x # xs) c = (if x = c then Some 0 else map_option Suc (index_in xs c))"

definition b64index :: "char \<Rightarrow> nat option" where
  "b64index c = index_in b64chars c"

fun btoa_groups :: "nat list \<Rightarrow> string" where
  "btoa_groups [] = []"
| "btoa_groups [a] = [b64char (a div 4), b64char ((a mod 4) * 16), CHR ''='', CHR ''='']"
| "btoa_groups [a, b] =
     [b64char (a div 4), b64char ((a mod 4) * 16 + b div 16), b64char ((b mod 16) * 4),
      CHR ''='']"
| "btoa_groups (a # b # c # rest) =
     [b64char (a div 4), b64char ((a mod 4) * 16 + b div 16),
      b64char ((b mod 16) * 4 + c div 64), b64char (c mod 64)] @ btoa_groups rest"

definition btoa :: "string \<Rightarrow> string" where
  "btoa binaryString = btoa_groups (map of_char binaryString)"

fun atob_groups :: "nat list \<Rightarrow> nat list" where
  "atob_groups (a # b # c # d # rest) =
     [a * 4 + b div 16, (b mod 16) * 16 + c div 4, (c mod 4) * 64 + d] @ atob_groups rest"
| "atob_groups [a, b, c] = [a * 4 + b div 16, (b mod 16) * 16 + c div 4]"
| "atob_groups [a, b] = [a * 4 + b div 16]"
| "atob_groups _ = []"

definition ascii_whitespace :: "char \<Rightarrow> bool" where
  "ascii_whitespace c = (of_char c \<in> {9, 10, 12, 13, 32 :: nat})"

definition strip_padding :: "string \<Rightarrow> string" where
  "strip_padding d =
     (if length d mod 4 = 0 \<and> d \<noteq> [] \<and> last d = CHR ''='' then
        (if butlast d \<noteq> [] \<and> last (butlast d) = CHR ''='' then butlast (butlast d)
         else butlast d)
      else d)"

definition atob :: "string \<Rightarrow> error + string" where
  "atob encoded =
     (let d = strip_padding (filter (\<lambda>c. \<not> ascii_whitespace c) encoded) in
      if length d mod 4 = 1 then Inl InvalidCharacterError
      else (case those (map b64index d) of
              None \<Rightarrow> Inl InvalidCharacterError
            | Some sextets \<Rightarrow> Inr (map char_of (atob_groups sextets))))"

section \<open>utils.ts: base64url\<close>

text \<open>\<open>s.replace(/x/g, y)\<close> for single characters.\<close>

definition replace_char :: "char \<Rightarrow> string \<Rightarrow> string \<Rightarrow> string" where
  "replace_char x y s = concat (map (\<lambda>c. if c = x then y else [c]) s)"

definition base64urlToBytes :: "string \<Rightarrow> error + bytes" where
  "base64urlToBytes base64url =
     (let base64 = replace_char CHR ''_'' ''/'' (replace_char CHR ''-'' ''+'' base64url);
          padding = replicate ((4 - length base64 mod 4) mod 4) CHR ''='';
          paddedBase64 = base64 @ padding
      in case atob paddedBase64 of
           Inl e \<Rightarrow> Inl e
         | Inr binaryString \<Rightarrow> Inr (map (\<lambda>ch. of_nat (of_char ch)) binaryString))"

definition bytesToBase64url :: "bytes \<Rightarrow> string" where
  "bytesToBase64url bs =
     (let binaryString = map (\<lambda>b. char_of (unat b)) bs;
          base64 = btoa binaryString
      in replace_char CHR ''='' [] (replace_char CHR ''/'' ''_'' (replace_char CHR ''+'' ''-'' base64)))"

section \<open>decoder.ts: parseClientDataJSON\<close>

text \<open>
  The value \<open>JSON.parse\<close> returns. \<open>JSON.parse\<close> and \<open>TextDecoder\<close> belong to the
  platform; their composition is a parameter \<open>json_parse\<close> of the model, \<open>None\<close> when
  \<open>JSON.parse\<close> throws a SyntaxError. The fields of the parsed client data are whatever
  the JSON text holds: the interface \<open>ClientDataJSON\<close> is not checked at run time.
  Strings are lists of 8-bit characters, which covers the texts compared and decoded here
  (ceremony types, origins, base64url); an object lists each of its properties once.
\<close>

datatype jsval =
    JUndefined
  | JNull
  | JBool bool
  | JNum int
  | JStr string
  | JArr "jsval list"
  | JObj "(string \<times> jsval) list"

text \<open>
  \<open>parsed.key\<close> for the four keys read here: a TypeError on \<open>null\<close>, the property of an
  object, and \<open>undefined\<close> on everything else.
\<close>

definition get_prop :: "jsval \<Rightarrow> string \<Rightarrow> error + jsval" where
  "get_prop v k =
     (case v of
        JNull \<Rightarrow> Inl TypeError
      | JUndefined \<Rightarrow> Inl TypeError
      | JObj kvs \<Rightarrow> Inr (case map_of kvs k of None \<Rightarrow> JUndefined | Some x \<Rightarrow> x)
      | _ \<Rightarrow> Inr JUndefined)"

record ClientDataJSON =
  ctype :: jsval
  challenge :: jsval
  origin :: jsval
  crossOrigin :: jsval

text \<open>Every exception inside the \<open>try\<close> is thrown again as one Error.\<close>

definition parseClientDataJSON :: "(bytes \<Rightarrow> jsval option) \<Rightarrow> bytes \<Rightarrow> error + ClientDataJSON" where
  "parseClientDataJSON json_parse bs =
     (case json_parse bs of
        None \<Rightarrow> Inl FailedToParseClientDataJSON
      | Some parsed \<Rightarrow>
          (case (get_prop parsed ''type'', get_prop parsed ''challenge'',
                 get_prop parsed ''origin'', get_prop parsed ''crossOrigin'') of
             (Inr t, Inr ch, Inr orig, Inr cross) \<Rightarrow>
               Inr \<lparr>ctype = t, challenge = ch, origin = orig, crossOrigin = cross\<rparr>
           | _ \<Rightarrow> Inl FailedToParseClientDataJSON))"

section \<open>verifier.ts\<close>

record VerificationOptions =
  expectedOrigin :: string
  expectedChallenge :: bytes
  requireUserVerification :: "bool option"

record Flags =
  userPresent :: bool
  userVerified :: bool
  backupEligible :: bool
  backupState :: bool

text \<open>The messages of the failure results, with the values they quote.\<close>

datatype failure =
    InvalidCeremonyType jsval
  | OriginMismatch string jsval
  | ChallengeMismatch
  | AuthenticatorDataTooShort nat
  | UserPresenceFlagNotSet
  | UserVerificationFlagNotSet
  | VerificationFailed error

record VerificationResult =
  valid :: bool
  error :: "failure option"
  clientData :: "ClientDataJSON option"
  flags :: "Flags option"

definition failed :: "failure \<Rightarrow> VerificationResult" where
  "failed f = \<lparr>valid = False, error = Some f, clientData = None, flags = None\<rparr>"

text \<open>
  The body of the \<open>try\<close> block. \<open>base64urlToBytes\<close> calls \<open>.replace\<close> on the challenge,
  a TypeError when the challenge is not a string.
\<close>

definition verifyWebAuthnAssertion_try ::
  "(bytes \<Rightarrow> jsval option) \<Rightarrow> DecodedVarsig \<Rightarrow> VerificationOptions \<Rightarrow> error + VerificationResult" where
  "verifyWebAuthnAssertion_try json_parse decoded options =
     (case parseClientDataJSON json_parse (clientDataJSON decoded) of
        Inl e \<Rightarrow> Inl e
      | Inr cd \<Rightarrow>
     if ctype cd \<noteq> JStr ''webauthn.get'' then Inr (failed (InvalidCeremonyType (ctype cd)))
     else if origin cd \<noteq> JStr (expectedOrigin options)
       then Inr (failed (OriginMismatch (expectedOrigin options) (origin cd)))
     else
     (case (case challenge cd of JStr s \<Rightarrow> base64urlToBytes s | _ \<Rightarrow> Inl TypeError) of
        Inl e \<Rightarrow> Inl e
      | Inr challengeBytes \<Rightarrow>
     if \<not> bytesEqual challengeBytes (expectedChallenge options)
       then Inr (failed ChallengeMismatch)
     else if length (authenticatorData decoded) < 37
       then Inr (failed (AuthenticatorDataTooShort (length (authenticatorData decoded))))
     else
     let fl = to_number (elem (authenticatorData decoded) 32);
         up = (js_and fl 0x01 \<noteq> 0);
         uv = (js_and fl 0x04 \<noteq> 0);
         be = (js_and fl 0x08 \<noteq> 0);
         bs = (js_and fl 0x10 \<noteq> 0)
     in
     if \<not> up then Inr (failed UserPresenceFlagNotSet)
     else if requireUserVerification options \<noteq> Some False \<and> \<not> uv
       then Inr (failed UserVerificationFlagNotSet)
     else Inr \<lparr>valid = True, error = None, clientData = Some cd,
               flags = Some \<lparr>userPresent = up, userVerified = uv,
                             backupEligible = be, backupState = bs\<rparr>\<rparr>))"

text \<open>The whole function: the \<open>catch\<close> turns every exception into a failure result.\<close>

definition verifyWebAuthnAssertion ::
  "(bytes \<Rightarrow> jsval option) \<Rightarrow> DecodedVarsig \<Rightarrow> VerificationOptions \<Rightarrow> error + VerificationResult" where
  "verifyWebAuthnAssertion json_parse decoded options =
     (case verifyWebAuthnAssertion_try json_parse decoded options of
        Inl e \<Rightarrow> Inr (failed (VerificationFailed e))
      | Inr r \<Rightarrow> Inr r)"

section \<open>The hardware signer: identifiers from public keys\<close>

text \<open>
  \<open>base58btc\<close> comes from the package \<open>multiformats\<close>, which is not part of this
  repository: its \<open>encode\<close> and \<open>decode\<close> are parameters of the functions below.
\<close>

definition createEd25519Did :: "(bytes \<Rightarrow> string) \<Rightarrow> bytes \<Rightarrow> error + string" where
  "createEd25519Did base58btc_encode publicKey =
     (let multikey = (replicate (2 + length publicKey) 0)[0 := 0xed, 1 := 0x01] in
      case set_at multikey publicKey 2 of
        Inl e \<Rightarrow> Inl e
      | Inr multikey' \<Rightarrow> Inr (''did:key:'' @ base58btc_encode multikey'))"

definition createP256Did :: "(bytes \<Rightarrow> string) \<Rightarrow> bytes \<Rightarrow> error + string" where
  "createP256Did base58btc_encode publicKey =
     (let multicodecPrefix = [0x80, 0x24];
          multikey = replicate (length multicodecPrefix + length publicKey) 0
      in case set_at multikey multicodecPrefix 0 of
           Inl e \<Rightarrow> Inl e
         | Inr multikey' \<Rightarrow>
             (case set_at multikey' publicKey (length multicodecPrefix) of
                Inl e \<Rightarrow> Inl e
              | Inr multikey'' \<Rightarrow> Inr (''did:key:'' @ base58btc_encode multikey'')))"

definition extractPublicKeyFromDid :: "(string \<Rightarrow> error + bytes) \<Rightarrow> string \<Rightarrow> error + bytes" where
  "extractPublicKeyFromDid base58btc_decode did =
     (if take 9 did \<noteq> ''did:key:z'' then Inl InvalidDIDFormat
      else
        let encoded = slice_from did 8 in
        case base58btc_decode encoded of
          Inl e \<Rightarrow> Inl e
        | Inr multikey \<Rightarrow> Inr (slice_from multikey 2))"

text \<open>
  A model of the package's codec, for running the functions above: the bytes are read as
  one big-endian number and written in base 58, each leading zero byte becomes the
  character \<open>1\<close>, and the multibase prefix \<open>z\<close> comes first.
\<close>

definition b58chars :: string where
  "b58chars = ''123456789ABCDEFGHJKLMNPQRSTUVWXYZabcdefghijkmnopqrstuvwxyz''"

definition digits_to_int :: "int \<Rightarrow> int list \<Rightarrow> int" where
  "digits_to_int base ds = foldl (\<lambda>acc d. acc * base + d) 0 ds"

function int_to_digits :: "int \<Rightarrow> int \<Rightarrow> int list" where
  "int_to_digits base n =
     (if n \<le> 0 \<or> base < 2 then [] else int_to_digits base (n div base) @ [n mod base])"
  by pat_completeness auto
termination
  by (relation "measure (\<lambda>(base, n). nat n)") (auto simp: int_div_less_self)

definition base58btc_encode :: "bytes \<Rightarrow> string" where
  "base58btc_encode bs =
     CHR ''z'' # replicate (length (takeWhile (\<lambda>b. b = 0) bs)) CHR ''1''
       @ map (\<lambda>d. b58chars ! nat d) (int_to_digits 58 (digits_to_int 256 (map uint bs)))"

definition base58btc_decode :: "string \<Rightarrow> error + bytes" where
  "base58btc_decode text =
     (case text of
        [] \<Rightarrow> Inl Base58DecodeError
      | p # body \<Rightarrow>
          if p \<noteq> CHR ''z'' then Inl Base58DecodeError
          else (case those (map (index_in b58chars) body) of
                  None \<Rightarrow> Inl Base58DecodeError
                | Some ds \<Rightarrow>
                    Inr (replicate (length (takeWhile (\<lambda>d. d = 0) ds)) 0
                         @ map of_int (int_to_digits 256 (digits_to_int 58 (map int ds))))))"

section \<open>Sample client data\<close>

text \<open>
  Four client data texts in UTF-8, and what \<open>JSON.parse\<close> makes of them: three well-formed
  objects (an assertion for \<open>https://example.com\<close>, one for \<open>https://evil.com\<close>, and a
  registration for \<open>https://evil.com\<close>; the challenge \<open>AQID\<close> is the base64url text of
  the bytes 1, 2, 3) and the malformed text \<open>not valid json{]\<close>, a SyntaxError.
\<close>

definition clientData_get :: bytes where
  "clientData_get =
     [123, 34, 116, 121, 112, 101, 34, 58, 34, 119, 101, 98, 97, 117, 116, 104, 110,
      46, 103, 101, 116, 34, 44, 34, 99, 104, 97, 108, 108, 101, 110, 103, 101, 34, 58,
      34, 65, 81, 73, 68, 34, 44, 34, 111, 114, 105, 103, 105, 110, 34, 58, 34, 104,
      116, 116, 112, 115, 58, 47, 47, 101, 120, 97, 109, 112, 108, 101, 46, 99, 111,
      109, 34, 44, 34, 99, 114, 111, 115, 115, 79, 114, 105, 103, 105, 110, 34, 58,
      102, 97, 108, 115, 101, 125]"

definition clientData_evil :: bytes where
  "clientData_evil =
     [123, 34, 116, 121, 112, 101, 34, 58, 34, 119, 101, 98, 97, 117, 116, 104, 110,
      46, 103, 101, 116, 34, 44, 34, 99, 104, 97, 108, 108, 101, 110, 103, 101, 34, 58,
      34, 65, 81, 73, 68, 34, 44, 34, 111, 114, 105, 103, 105, 110, 34, 58, 34, 104,
      116, 116, 112, 115, 58, 47, 47, 101, 118, 105, 108, 46, 99, 111, 109, 34, 44, 34,
      99, 114, 111, 115, 115, 79, 114, 105, 103, 105, 110, 34, 58, 102, 97, 108, 115,
      101, 125]"

definition clientData_create_evil :: bytes where
  "clientData_create_evil =
     [123, 34, 116, 121, 112, 101, 34, 58, 34, 119, 101, 98, 97, 117, 116, 104, 110,
      46, 99, 114, 101, 97, 116, 101, 34, 44, 34, 99, 104, 97, 108, 108, 101, 110, 103,
      101, 34, 58, 34, 65, 81, 73, 68, 34, 44, 34, 111, 114, 105, 103, 105, 110, 34,
      58, 34, 104, 116, 116, 112, 115, 58, 47, 47, 101, 118, 105, 108, 46, 99, 111,
      109, 34, 44, 34, 99, 114, 111, 115, 115, 79, 114, 105, 103, 105, 110, 34, 58,
      102, 97, 108, 115, 101, 125]"


definition parsed_client_data :: "string \<Rightarrow> string \<Rightarrow> jsval" where
  "parsed_client_data t orig =
     JObj [(''type'', JStr t), (''challenge'', JStr ''AQID''), (''origin'', JStr orig),
           (''crossOrigin'', JBool False)]"

definition json_parse_sample :: "bytes \<Rightarrow> jsval option" where
  "json_parse_sample bs =
     (if bs = clientData_get then Some (parsed_client_data ''webauthn.get'' ''https://example.com'')
      else if bs = clientData_evil
        then Some (parsed_client_data ''webauthn.get'' ''https://evil.com'')
      else if bs = clientData_create_evil
        then Some (parsed_client_data ''webauthn.create'' ''https://evil.com'')
      else None)"

definition sample_decoded :: "bytes \<Rightarrow> bytes \<Rightarrow> DecodedVarsig" where
  "sample_decoded authData clientDataText =
     \<lparr>authenticatorData = authData, clientDataJSON = clientDataText,
      signature = replicate 64 0, multicodec = WEBAUTHN_ED25519, algorithm = Some Ed25519\<rparr>"

definition sample_options :: "bool option \<Rightarrow> VerificationOptions" where
  "sample_options ruv =
     \<lparr>expectedOrigin = ''https://example.com'', expectedChallenge = [1, 2, 3],
      requireUserVerification = ruv\<rparr>"

section \<open>Reference encoding for the proofs\<close>

text \<open>
  Unsigned LEB128 as a recursive function on the integers: seven bits per byte, least
  significant group first, the continuation bit on every byte but the last. The codec is
  compared with it below.
\<close>

function leb128 :: "int \<Rightarrow> int list" where
  "leb128 n = (if 128 \<le> n then (n mod 128 + 128) # leb128 (n div 128) else [n mod 128])"
  by pat_completeness auto
termination
  by (relation "measure nat") auto

text \<open>
  Base64 without its alphabet: the six-bit groups of a byte sequence, the padding that
  follows them, and the exchange of \<open>+\<close> and \<open>/\<close> for \<open>-\<close> and \<open>_\<close>.
\<close>

fun sextets :: "nat list \<Rightarrow> nat list" where
  "sextets [] = []"
| "sextets [a] = [a div 4, (a mod 4) * 16]"
| "sextets [a, b] = [a div 4, (a mod 4) * 16 + b div 16, (b mod 16) * 4]"
| "sextets (a # b # c # rest) =
     [a div 4, (a mod 4) * 16 + b div 16, (b mod 16) * 4 + c div 64, c mod 64] @ sextets rest"

definition b64pad :: "nat \<Rightarrow> string" where
  "b64pad n = replicate ((3 - n mod 3) mod 3) CHR ''=''"

definition to_url :: "char \<Rightarrow> char" where
  "to_url c = (if c = CHR ''+'' then CHR ''-'' else if c = CHR ''/'' then CHR ''_'' else c)"

declare varintEncode_loop.simps [simp del] varintDecode_loop.simps [simp del]
  int_to_digits.simps [simp del] leb128.simps [simp del]

section \<open>The bitwise operators on the values the codec meets\<close>

lemma js_ushr7_eq: "js_ushr v 7 = (v mod 2 ^ 32) div 2 ^ 7"
  unfolding js_ushr_def
  by (simp add: uint_word_of_int drop_bit_eq_div take_bit_eq_mod uint_div_distrib)

lemma js_and_int: "js_and a b = signed_take_bit 31 (a AND b)"
  by (simp add: js_and_def word_wi_log_defs sint_sbintrunc')

lemma js_or_int: "js_or a b = signed_take_bit 31 (a OR b)"
  by (simp add: js_or_def word_wi_log_defs sint_sbintrunc')

lemma js_shl_int: "js_shl a s = signed_take_bit 31 (push_bit (nat (s mod 32)) a)"
  by (simp add: js_shl_def push_bit_of_int sint_sbintrunc')

lemma stb_id: "0 \<le> k \<Longrightarrow> k < 2 ^ 31 \<Longrightarrow> signed_take_bit 31 (k::int) = k"
  by (rule signed_take_bit_int_eq_self) simp_all

lemma js_and_7f: "js_and a 0x7f = a mod 128"
proof -
  have m: "(127::int) = mask 7" by (simp add: mask_eq_exp_minus_1)
  have "a AND 127 = take_bit 7 a" unfolding m by (simp add: take_bit_eq_mask)
  then have e: "a AND 127 = a mod 128" by (simp add: take_bit_eq_mod)
  have "0 \<le> a mod 128" "a mod 128 < 2 ^ 31"
    using pos_mod_bound [of 128 a] by simp_all
  then show ?thesis by (simp add: js_and_int e stb_id)
qed

lemma js_and_80: "0 \<le> a \<Longrightarrow> a < 256 \<Longrightarrow> (js_and a 0x80 = 0) = (a < 128)"
proof -
  assume a: "0 \<le> a" "a < 256"
  have p: "(128::int) = 2 ^ 7" by simp
  have b1: "0 \<le> a AND 128" by simp
  have b2: "a AND 128 \<le> 128" by (rule AND_upper2') simp_all
  have "js_and a 0x80 = a AND 128" using b1 b2 by (simp add: js_and_int stb_id)
  moreover have "(a AND 128 = 0) = (\<not> bit a 7)"
    unfolding p by (rule and_exp_eq_0_iff_not_bit)
  moreover have "bit a 7 = (\<not> a < 128)"
  proof -
    have "a div 128 = 0 \<or> a div 128 = 1" using a by auto
    then show ?thesis using a by (auto simp: bit_iff_odd)
  qed
  ultimately show ?thesis by simp
qed

lemma or_add: "0 \<le> v \<Longrightarrow> v < 2 ^ s \<Longrightarrow> (v::int) OR push_bit s b = v + push_bit s b"
proof -
  assume v: "0 \<le> v" "v < 2 ^ s"
  then have tv: "take_bit s v = v" by (simp add: take_bit_int_eq_self)
  have "\<not> bit v n \<or> \<not> bit (push_bit s b) n" for n
  proof (cases "n < s")
    case True then show ?thesis by (simp add: bit_push_bit_iff)
  next
    case False
    have "bit v n = bit (take_bit s v) n" by (simp add: tv)
    then show ?thesis using False by (simp add: bit_take_bit_iff)
  qed
  then show ?thesis by (rule disjunctive_add [symmetric])
qed

lemma shifted_bound:
  assumes "0 \<le> v" "v < 2 ^ s" "0 \<le> b" "b < 2 ^ k"
  shows "v + b * 2 ^ s < (2::int) ^ (s + k)"
proof -
  have "b + 1 \<le> 2 ^ k" using assms by simp
  then have le: "(b + 1) * 2 ^ s \<le> (2::int) ^ k * 2 ^ s"
    by (rule mult_right_mono) simp
  have "v + b * 2 ^ s < (b + 1) * 2 ^ s" using assms by (simp add: algebra_simps)
  also note le
  also have "(2::int) ^ k * 2 ^ s = 2 ^ (s + k)" by (simp add: power_add)
  finally show ?thesis .
qed

lemma js_or_shl:
  assumes "0 \<le> v" "v < 2 ^ s" "0 \<le> b" "b < 2 ^ k" "s + k \<le> 31"
  shows "js_or v (js_shl b (int s)) = v + b * 2 ^ s"
proof -
  have pb: "push_bit s b = b * 2 ^ s" by (simp add: push_bit_eq_mult)
  have nn: "0 \<le> b * 2 ^ s" using assms by simp
  have "v + b * 2 ^ s < (2::int) ^ (s + k)" using assms by (intro shifted_bound)
  also have "\<dots> \<le> 2 ^ 31" using assms by (intro power_increasing) simp_all
  finally have le: "v + b * 2 ^ s < 2 ^ 31" .
  then have le2: "b * 2 ^ s < 2 ^ 31" using assms by linarith
  have s32: "int s mod 32 = int s" using assms by simp
  have sh: "js_shl b (int s) = b * 2 ^ s"
    using nn le2 by (simp add: js_shl_int s32 pb stb_id)
  have "0 \<le> v + b * 2 ^ s" using assms nn by simp
  then show ?thesis using le
    by (simp add: js_or_int sh or_add [of v s b, unfolded pb, OF assms(1,2)] stb_id)
qed

lemma js_or_80: "0 \<le> a \<Longrightarrow> a < 128 \<Longrightarrow> js_or a 0x80 = a + 128"
  using or_add [of a 7 1] by (simp add: js_or_int stb_id)

section \<open>The varint codec is LEB128 below 2^31\<close>

lemma varintEncode_loop_leb128:
  "0 \<le> v \<Longrightarrow> v < 2 ^ 32 \<Longrightarrow> varintEncode_loop v acc = acc @ leb128 v"
proof (induction v acc rule: varintEncode_loop.induct)
  case (1 v acc)
  show ?case
  proof (cases "128 \<le> v")
    case True
    have sh: "js_ushr v 7 = v div 128" using 1(2,3) by (simp add: js_ushr7_eq)
    have "0 \<le> v div 128" "v div 128 < 2 ^ 32" using 1(2,3) by simp_all
    then have ih: "varintEncode_loop (js_ushr v 7) (acc @ [js_or (js_and v 0x7f) 0x80])
        = (acc @ [js_or (js_and v 0x7f) 0x80]) @ leb128 (v div 128)"
      using 1(1) True by (simp add: sh)
    have b: "js_or (js_and v 0x7f) 0x80 = v mod 128 + 128"
      by (simp add: js_and_7f js_or_80)
    show ?thesis
      using True ih b by (subst varintEncode_loop.simps, subst leb128.simps) simp
  next
    case False
    then show ?thesis
      by (subst varintEncode_loop.simps, subst leb128.simps) (simp add: js_and_7f)
  qed
qed

lemma varintEncode_leb128:
  "0 \<le> v \<Longrightarrow> v < 2 ^ 32 \<Longrightarrow> varintEncode v = map word_of_int (leb128 v)"
  by (simp add: varintEncode_def varintEncode_loop_leb128)

lemma elem_at:
  "int (length pre) = i \<Longrightarrow> elem (pre @ word_of_int b # post) i = Some (b mod 256)"
  by (auto simp: elem_def uint_word_of_int)

lemma varintDecode_loop_leb128:
  assumes "0 \<le> n" "n < 2 ^ k" "s + k \<le> 31" "0 \<le> v" "v < 2 ^ s"
    and "offset + int r = int (length pre)"
  shows "varintDecode_loop (pre @ map word_of_int (leb128 n) @ post) offset v (int s) r
         = Inr (v + n * 2 ^ s, r + length (leb128 n))"
  using assms
proof (induction n arbitrary: k s v r pre rule: leb128.induct)
  case (1 n)
  show ?case
  proof (cases "128 \<le> n")
    case True
    let ?b = "n mod 128 + 128"
    let ?rest = "leb128 (n div 128)"
    have leb: "leb128 n = ?b # ?rest" using True by (subst leb128.simps) simp
    have k7: "7 < k"
    proof (rule ccontr)
      assume "\<not> 7 < k"
      then have "(2::int) ^ k \<le> 2 ^ 7" by (intro power_increasing) simp_all
      then show False using True 1(3) by simp
    qed
    have brange: "0 \<le> ?b" "?b < 256" "\<not> ?b < 128" by simp_all
    have el: "elem (pre @ map word_of_int (leb128 n) @ post) (offset + int r) = Some ?b"
      using elem_at [of pre "offset + int r" ?b] 1(7) brange by (simp add: leb)
    have low: "js_and ?b 0x7f = n mod 128" by (simp add: js_and_7f)
    have cont: "js_and ?b 0x80 \<noteq> 0" using js_and_80 [of ?b] brange by simp
    have acc: "js_or v (js_shl (n mod 128) (int s)) = v + (n mod 128) * 2 ^ s"
      using 1(4,5,6) k7 by (intro js_or_shl [where k = 7]) simp_all
    have v': "0 \<le> v + (n mod 128) * 2 ^ s" "v + (n mod 128) * 2 ^ s < 2 ^ (s + 7)"
      using 1(5,6) shifted_bound [of v s "n mod 128" 7] by simp_all
    have nd: "0 \<le> n div 128" "n div 128 < 2 ^ (k - 7)"
    proof -
      show "0 \<le> n div 128" using 1(2) by simp
      have "(2::int) ^ k = 2 ^ ((k - 7) + 7)" using k7 by simp
      also have "\<dots> = 2 ^ (k - 7) * 2 ^ 7" by (simp only: power_add)
      finally have "n < 2 ^ (k - 7) * 128" using 1(3) by simp
      then show "n div 128 < 2 ^ (k - 7)" by arith
    qed
    have ih: "varintDecode_loop ((pre @ [word_of_int ?b]) @ map word_of_int ?rest @ post)
          offset (v + (n mod 128) * 2 ^ s) (int (s + 7)) (r + 1)
        = Inr (v + (n mod 128) * 2 ^ s + (n div 128) * 2 ^ (s + 7), r + 1 + length ?rest)"
      using True nd v' 1(4,7) k7
      by (intro 1(1) [where k = "k - 7"]) simp_all
    have val: "v + (n mod 128) * 2 ^ s + (n div 128) * 2 ^ (s + 7) = v + n * 2 ^ s"
    proof -
      define q where "q = n div 128"
      define m where "m = n mod 128"
      have "v + m * 2 ^ s + q * 2 ^ (s + 7) = v + (q * 128 + m) * 2 ^ s"
        by (simp add: algebra_simps power_add)
      then show ?thesis by (simp add: q_def m_def)
    qed
    have inr: "offset + int r < int (length (pre @ map word_of_int (leb128 n) @ post))"
      using 1(7) by (simp add: leb)
    have s53: "\<not> int s + 7 > 53" using 1(4) by simp
    show ?thesis
      apply (subst varintDecode_loop.simps)
      using inr el low cont acc s53 ih val
      by (simp add: to_number_def Let_def leb add.commute)
  next
    case False
    have leb: "leb128 n = [n]" using False 1(2) by (subst leb128.simps) simp
    have el: "elem (pre @ map word_of_int (leb128 n) @ post) (offset + int r) = Some n"
      using elem_at [of pre "offset + int r" n] 1(7) 1(2) False by (simp add: leb)
    have low: "js_and n 0x7f = n" using False 1(2) by (simp add: js_and_7f)
    have stop: "js_and n 0x80 = 0" using js_and_80 [of n] False 1(2) by simp
    have acc: "js_or v (js_shl n (int s)) = v + n * 2 ^ s"
      using 1(2,3,4,5,6) by (intro js_or_shl [where k = k]) simp_all
    have inr: "offset + int r < int (length (pre @ map word_of_int (leb128 n) @ post))"
      using 1(7) by (simp add: leb)
    show ?thesis
      apply (subst varintDecode_loop.simps)
      using inr el low stop acc
      by (simp add: to_number_def Let_def leb)
  qed
qed

lemma varintDecode_varintEncode_at:
  assumes "0 \<le> n" "n < 2 ^ 31"
  shows "varintDecode (pre @ varintEncode n @ post) (int (length pre))
         = Inr (n, length (varintEncode n))"
proof -
  have n32: "n < 2 ^ 32" using assms by simp
  have "varintDecode_loop (pre @ map word_of_int (leb128 n) @ post) (int (length pre)) 0 (int 0) 0
        = Inr (0 + n * 2 ^ 0, 0 + length (leb128 n))"
    using assms by (intro varintDecode_loop_leb128 [where k = 31]) simp_all
  then show ?thesis
    using assms n32 by (simp add: varintDecode_def varintEncode_leb128)
qed

lemma varint_roundtrip_below_2_31:
  "0 \<le> n \<Longrightarrow> n < 2 ^ 31 \<Longrightarrow> varintDecode (varintEncode n) 0 = Inr (n, length (varintEncode n))"
  using varintDecode_varintEncode_at [of n "[]" "[]"] by simp

section \<open>concat and the encoder\<close>

lemma fold_length_sum:
  "fold (\<lambda>arr sum. sum + length arr) arrays a = a + sum_list (map length arrays)"
  by (induction arrays arbitrary: a) simp_all

lemma concat_loop_fills:
  "offset = length pre \<Longrightarrow> length rest = sum_list (map length arrays)
   \<Longrightarrow> concat_loop arrays (pre @ rest) offset = Inr (pre @ concat arrays)"
proof (induction arrays arbitrary: pre rest offset)
  case Nil
  then show ?case by simp
next
  case (Cons arr arrays)
  have fit: "\<not> offset + length arr > length (pre @ rest)" using Cons.prems by simp
  have st: "set_at (pre @ rest) arr offset = Inr ((pre @ arr) @ drop (length arr) rest)"
    using Cons.prems fit by (simp add: set_at_def)
  have "concat_loop arrays ((pre @ arr) @ drop (length arr) rest) (offset + length arr)
        = Inr ((pre @ arr) @ concat arrays)"
    using Cons.prems by (intro Cons.IH) simp_all
  then show ?case by (simp add: st)
qed

lemma concat_arrays_eq: "concat_arrays arrays = Inr (concat arrays)"
  using concat_loop_fills [of 0 "[]" "replicate (sum_list (map length arrays)) 0" arrays]
  by (simp add: concat_arrays_def fold_length_sum)

lemma encodeWebAuthnVarsig_eq:
  "encodeWebAuthnVarsig assertion alg =
     Inr (varintEncode (ALGORITHM_TO_MULTICODEC alg)
          @ varintEncode (int (length (authenticatorData assertion)))
          @ authenticatorData assertion
          @ varintEncode (int (length (clientDataJSON assertion)))
          @ clientDataJSON assertion
          @ signature assertion)"
  by (simp add: encodeWebAuthnVarsig_def concat_arrays_eq)

section \<open>Decoding a truncated varint\<close>

lemma varintDecode_loop_leb128_trunc:
  assumes "0 \<le> n" "n < 2 ^ k" "s + k \<le> 31" "0 \<le> v" "v < 2 ^ s"
    and "offset + int r = int (length pre)" and "j < length (leb128 n)"
  shows "varintDecode_loop (pre @ take j (map word_of_int (leb128 n))) offset v (int s) r
         = Inl VarintIncomplete"
  using assms
proof (induction n arbitrary: k s v r pre j rule: leb128.induct)
  case (1 n)
  show ?case
  proof (cases j)
    case 0
    have "\<not> offset + int r < int (length pre)" using 1(7) by simp
    then show ?thesis using 0 by (subst varintDecode_loop.simps) simp
  next
    case (Suc j')
    have big: "128 \<le> n"
    proof (rule ccontr)
      assume "\<not> 128 \<le> n"
      then have "leb128 n = [n mod 128]" by (subst leb128.simps) simp
      then show False using 1(8) Suc by simp
    qed
    let ?b = "n mod 128 + 128"
    let ?rest = "leb128 (n div 128)"
    have leb: "leb128 n = ?b # ?rest" using big by (subst leb128.simps) simp
    have k7: "7 < k"
    proof (rule ccontr)
      assume "\<not> 7 < k"
      then have "(2::int) ^ k \<le> 2 ^ 7" by (intro power_increasing) simp_all
      then show False using big 1(3) by simp
    qed
    have brange: "0 \<le> ?b" "?b < 256" "\<not> ?b < 128" by simp_all
    have tk: "pre @ take j (map word_of_int (leb128 n))
        = pre @ word_of_int ?b # take j' (map word_of_int ?rest)"
      by (simp add: leb Suc)
    have el: "elem (pre @ take j (map word_of_int (leb128 n))) (offset + int r) = Some ?b"
      unfolding tk using elem_at [of pre "offset + int r" ?b] 1(7) brange by simp
    have low: "js_and ?b 0x7f = n mod 128" by (simp add: js_and_7f)
    have cont: "js_and ?b 0x80 \<noteq> 0" using js_and_80 [of ?b] brange by simp
    have acc: "js_or v (js_shl (n mod 128) (int s)) = v + (n mod 128) * 2 ^ s"
      using 1(4,5,6) k7 by (intro js_or_shl [where k = 7]) simp_all
    have v': "0 \<le> v + (n mod 128) * 2 ^ s" "v + (n mod 128) * 2 ^ s < 2 ^ (s + 7)"
      using 1(5,6) shifted_bound [of v s "n mod 128" 7] by simp_all
    have nd: "0 \<le> n div 128" "n div 128 < 2 ^ (k - 7)"
    proof -
      show "0 \<le> n div 128" using 1(2) by simp
      have "(2::int) ^ k = 2 ^ ((k - 7) + 7)" using k7 by simp
      also have "\<dots> = 2 ^ (k - 7) * 2 ^ 7" by (simp only: power_add)
      finally have "n < 2 ^ (k - 7) * 128" using 1(3) by simp
      then show "n div 128 < 2 ^ (k - 7)" by arith
    qed
    have j': "j' < length ?rest" using 1(8) Suc by (simp add: leb)
    have ih: "varintDecode_loop ((pre @ [word_of_int ?b]) @ take j' (map word_of_int ?rest))
          offset (v + (n mod 128) * 2 ^ s) (int (s + 7)) (r + 1)
        = Inl VarintIncomplete"
      using big nd v' 1(4,7) k7 j'
      by (intro 1(1) [where k = "k - 7"]) simp_all
    have inr: "offset + int r < int (length (pre @ take j (map word_of_int (leb128 n))))"
      unfolding tk using 1(7) by simp
    have s53: "\<not> int s + 7 > 53" using 1(4) by simp
    show ?thesis
      apply (subst varintDecode_loop.simps)
      using inr el low cont acc s53 ih
      by (simp add: to_number_def Let_def tk add.commute)
  qed
qed

lemma varintDecode_take:
  assumes "0 \<le> n" "n < 2 ^ 31"
  shows "varintDecode (take m (pre @ varintEncode n @ post)) (int (length pre))
         = (if m < length pre + length (varintEncode n) then Inl VarintIncomplete
            else Inr (n, length (varintEncode n)))"
proof -
  have n32: "n < 2 ^ 32" using assms by simp
  have enc: "varintEncode n = map word_of_int (leb128 n)"
    using assms n32 by (simp add: varintEncode_leb128)
  consider (a) "m < length pre" | (b) "length pre \<le> m" "m < length pre + length (varintEncode n)"
    | (c) "length pre + length (varintEncode n) \<le> m" by linarith
  then show ?thesis
  proof cases
    case a
    then have "\<not> int (length pre) + int 0 < int (length (take m (pre @ varintEncode n @ post)))"
      by simp
    then show ?thesis using a
      by (subst varintDecode_def, subst varintDecode_loop.simps) simp
  next
    case b
    have tk: "take m (pre @ varintEncode n @ post)
        = pre @ take (m - length pre) (map word_of_int (leb128 n))"
      using b by (simp add: enc)
    have "varintDecode_loop (pre @ take (m - length pre) (map word_of_int (leb128 n)))
            (int (length pre)) 0 (int 0) 0 = Inl VarintIncomplete"
      using assms b by (intro varintDecode_loop_leb128_trunc [where k = 31]) (simp_all add: enc)
    then have "varintDecode (take m (pre @ varintEncode n @ post)) (int (length pre))
        = Inl VarintIncomplete"
      unfolding tk varintDecode_def by simp
    then show ?thesis using b by simp
  next
    case c
    have tk: "take m (pre @ varintEncode n @ post)
        = pre @ varintEncode n @ take (m - length pre - length (varintEncode n)) post"
      using c by simp
    show ?thesis unfolding tk using c assms
      by (simp add: varintDecode_varintEncode_at)
  qed
qed

section \<open>slice\<close>

lemma slice_middle:
  "slice (pre @ xs @ post) (int (length pre)) (int (length pre) + int (length xs)) = xs"
  by (simp add: slice_def Let_def)

lemma slice_from_append: "slice_from (pre @ post) (int (length pre)) = post"
  by (simp add: slice_from_def slice_def Let_def)

section \<open>Decoding an encoded envelope and its prefixes\<close>

lemma multicodec_facts:
  "0 \<le> ALGORITHM_TO_MULTICODEC alg" "ALGORITHM_TO_MULTICODEC alg < 2 ^ 31"
  "getAlgorithm (ALGORITHM_TO_MULTICODEC alg) = Some alg"
  "\<not> (ALGORITHM_TO_MULTICODEC alg \<noteq> WEBAUTHN_ED25519 \<and> ALGORITHM_TO_MULTICODEC alg \<noteq> WEBAUTHN_P256)"
  by (cases alg; simp add: getAlgorithm_def WEBAUTHN_ED25519_def WEBAUTHN_P256_def)+

lemma decode_take_envelope:
  fixes a c s :: bytes
  assumes la: "length a < 2 ^ 31" and lc: "length c < 2 ^ 31"
    and E0: "E0 = varintEncode (ALGORITHM_TO_MULTICODEC alg)"
    and E1: "E1 = varintEncode (int (length a))"
    and E2: "E2 = varintEncode (int (length c))"
    and v: "v = E0 @ E1 @ a @ E2 @ c @ s"
    and h: "h = length E0 + length E1 + length a + length E2 + length c"
  shows "decodeWebAuthnVarsig (take n v) =
     (if n < length E0 + length E1 then Inl VarintIncomplete
      else if n < length E0 + length E1 + length a then Inl InvalidAuthenticatorDataLength
      else if n < length E0 + length E1 + length a + length E2 then Inl VarintIncomplete
      else if n < h then Inl InvalidClientDataJSONLength
      else (let sig = take (n - h) s;
                d = \<lparr>authenticatorData = a, clientDataJSON = c, signature = sig,
                     multicodec = ALGORITHM_TO_MULTICODEC alg, algorithm = Some alg\<rparr>
            in case alg of
                 Ed25519 \<Rightarrow>
                   if length sig \<noteq> 64 then Inl (InvalidEd25519SignatureLength (length sig))
                   else Inr d
               | P256 \<Rightarrow>
                   if length sig < 64 \<or> length sig > 74
                   then Inl (InvalidP256SignatureLength (length sig))
                   else Inr d))"
proof -
  let ?p = "take n v"
  let ?tag = "ALGORITHM_TO_MULTICODEC alg"
  have ia: "0 \<le> int (length a)" "int (length a) < 2 ^ 31" using la by simp_all
  have ic: "0 \<le> int (length c)" "int (length c) < 2 ^ 31" using lc by simp_all
  have F0: "varintDecode ?p 0 =
      (if n < length E0 then Inl VarintIncomplete else Inr (?tag, length E0))"
    using varintDecode_take [OF multicodec_facts(1,2), of n "[]" alg "E1 @ a @ E2 @ c @ s"]
    by (simp add: v E0)
  have F1: "varintDecode ?p (int (length E0)) =
      (if n < length E0 + length E1 then Inl VarintIncomplete
       else Inr (int (length a), length E1))"
    using varintDecode_take [OF ia, of n E0 "a @ E2 @ c @ s"]
    by (simp add: v E1)
  have F2: "varintDecode ?p (int (length E0) + int (length E1) + int (length a)) =
      (if n < length E0 + length E1 + length a + length E2 then Inl VarintIncomplete
       else Inr (int (length c), length E2))"
    using varintDecode_take [OF ic, of n "E0 @ E1 @ a" "c @ s"]
    by (simp add: v E2 add.assoc)
  have lv: "length v = h + length s" by (simp add: v h)
  have len: "int (length ?p) = min (int n) (int h + int (length s))"
    by (simp add: lv min_def)
  consider (r1) "n < length E0 + length E1"
    | (r2) "length E0 + length E1 \<le> n" "n < length E0 + length E1 + length a"
    | (r3) "length E0 + length E1 + length a \<le> n"
           "n < length E0 + length E1 + length a + length E2"
    | (r4) "length E0 + length E1 + length a + length E2 \<le> n" "n < h"
    | (r5) "h \<le> n"
    using h by linarith
  then show ?thesis
  proof cases
    case r1
    show ?thesis
    proof (cases "n < length E0")
      case True
      then show ?thesis using r1 by (simp add: decodeWebAuthnVarsig_def F0)
    next
      case False
      then show ?thesis using r1
        by (simp add: decodeWebAuthnVarsig_def F0 F1 multicodec_facts Let_def)
    qed
  next
    case r2
    then show ?thesis
      by (simp add: decodeWebAuthnVarsig_def F0 F1 multicodec_facts Let_def lv h)
  next
    case r3
    have sl: "slice ?p (int (length E0) + int (length E1))
                (int (length E0) + int (length E1) + int (length a)) = a"
    proof -
      have "?p = (E0 @ E1) @ a @ take (n - length E0 - length E1 - length a) (E2 @ c @ s)"
        using r3 by (simp add: v)
      then show ?thesis using slice_middle [of "E0 @ E1" a] by simp
    qed
    show ?thesis using r3
      by (simp add: decodeWebAuthnVarsig_def F0 F1 F2 multicodec_facts Let_def lv h sl)
  next
    case r4
    have sl: "slice ?p (int (length E0) + int (length E1))
                (int (length E0) + int (length E1) + int (length a)) = a"
    proof -
      have "?p = (E0 @ E1) @ a @ take (n - length E0 - length E1 - length a) (E2 @ c @ s)"
        using r4 by (simp add: v)
      then show ?thesis using slice_middle [of "E0 @ E1" a] by simp
    qed
    show ?thesis using r4
      by (simp add: decodeWebAuthnVarsig_def F0 F1 F2 multicodec_facts Let_def lv h sl)
  next
    case r5
    have p: "?p = (E0 @ E1) @ a @ E2 @ c @ take (n - h) s"
      using r5 by (simp add: v h)
    have sl1: "slice ?p (int (length E0) + int (length E1))
                (int (length E0) + int (length E1) + int (length a)) = a"
      unfolding p using slice_middle [of "E0 @ E1" a] by simp
    have sl2: "slice ?p (int (length E0) + int (length E1) + int (length a) + int (length E2))
                (int (length E0) + int (length E1) + int (length a) + int (length E2)
                 + int (length c)) = c"
    proof -
      have "?p = (E0 @ E1 @ a @ E2) @ c @ take (n - h) s" using p by simp
      then show ?thesis using slice_middle [of "E0 @ E1 @ a @ E2" c "take (n - h) s"]
        by (simp add: add.assoc)
    qed
    have sl3: "slice_from ?p (int (length E0) + int (length E1) + int (length a)
                 + int (length E2) + int (length c)) = take (n - h) s"
    proof -
      have "?p = (E0 @ E1 @ a @ E2 @ c) @ take (n - h) s" using p by simp
      then show ?thesis using slice_from_append [of "E0 @ E1 @ a @ E2 @ c" "take (n - h) s"]
        by (simp add: add.assoc)
    qed
    show ?thesis using r5
      by (cases alg;
          simp add: decodeWebAuthnVarsig_def F0 F1 F2 multicodec_facts Let_def lv h
            sl1 sl2 sl3 getAlgorithm_def WEBAUTHN_ED25519_def WEBAUTHN_P256_def;
          arith)
  qed
qed

lemma decode_accepts_only_legal_signatures:
  assumes "decodeWebAuthnVarsig v = Inr d"
  shows "(algorithm d = Some Ed25519 \<and> length (signature d) = 64)
       \<or> (algorithm d = Some P256 \<and> 64 \<le> length (signature d) \<and> length (signature d) \<le> 74)"
  using assms
  by (auto simp: decodeWebAuthnVarsig_def Let_def getAlgorithm_def
           split: sum.splits prod.splits if_splits)

lemma decode_encode_bounded:
  fixes a c s :: bytes
  assumes "length a < 2 ^ 31" "length c < 2 ^ 31"
    and "encodeWebAuthnVarsig \<lparr>authenticatorData = a, clientDataJSON = c, signature = s\<rparr> alg = Inr v"
  shows "decodeWebAuthnVarsig v =
     (let d = \<lparr>authenticatorData = a, clientDataJSON = c, signature = s,
                multicodec = ALGORITHM_TO_MULTICODEC alg, algorithm = Some alg\<rparr>
      in case alg of
           Ed25519 \<Rightarrow>
             if length s \<noteq> 64 then Inl (InvalidEd25519SignatureLength (length s)) else Inr d
         | P256 \<Rightarrow>
             if length s < 64 \<or> length s > 74 then Inl (InvalidP256SignatureLength (length s))
             else Inr d)"
proof -
  let ?E0 = "varintEncode (ALGORITHM_TO_MULTICODEC alg)"
  let ?E1 = "varintEncode (int (length a))"
  let ?E2 = "varintEncode (int (length c))"
  let ?h = "length ?E0 + length ?E1 + length a + length ?E2 + length c"
  have v: "v = ?E0 @ ?E1 @ a @ ?E2 @ c @ s"
    using assms(3) by (simp add: encodeWebAuthnVarsig_eq)
  have "decodeWebAuthnVarsig (take (length v) v) = decodeWebAuthnVarsig v" by simp
  moreover have "\<not> length v < ?h" "length v - ?h = length s" by (simp_all add: v)
  ultimately show ?thesis
    using decode_take_envelope [OF assms(1,2) refl refl refl v refl, of "length v"]
    by (simp add: Let_def)
qed

section \<open>Decoding a prefix of any buffer\<close>






section \<open>Values beyond the signed 32-bit range\<close>

lemma varintDecode_negative_offset:
  "offset < 0 \<Longrightarrow> varintDecode bs offset = Inr (0, 1)"
  unfolding varintDecode_def
  by (subst varintDecode_loop.simps)
     (simp add: elem_def to_number_def js_and_def js_or_def js_shl_def)

lemma varintEncode_tags:
  "varintEncode WEBAUTHN_ED25519 = [0xD1, 0x5D]" "varintEncode WEBAUTHN_P256 = [0xD6, 0x44]"
  "varintEncode 0 = [0]" "varintEncode 2147483648 = [0x80, 0x80, 0x80, 0x80, 0x08]"
  by code_simp+

lemma elem_middle:
  assumes "i < length xs"
  shows "elem (pre @ xs @ post) (int (length pre) + int i) = Some (uint (xs ! i))"
proof -
  have n: "nat (int (length pre) + int i) = length pre + i" by (simp add: nat_add_distrib)
  show ?thesis using assms by (simp add: elem_def n nth_append)
qed

lemma varintDecode_2_31_at:
  "varintDecode (pre @ [0x80, 0x80, 0x80, 0x80, 0x08] @ post) (int (length pre))
   = Inr (- 2147483648, 5)"
proof -
  have el: "elem (pre @ [0x80, 0x80, 0x80, 0x80, 0x08] @ post) (int (length pre) + int i)
      = Some (uint (([0x80, 0x80, 0x80, 0x80, 0x08] :: bytes) ! i))" if "i < 5" for i
    using that by (intro elem_middle) simp
  have i0: "js_or 0 (js_shl (js_and 128 0x7f) 0) = 0" by code_simp
  have i1: "js_or 0 (js_shl (js_and 128 0x7f) 7) = 0" by code_simp
  have i2: "js_or 0 (js_shl (js_and 128 0x7f) 14) = 0" by code_simp
  have i3: "js_or 0 (js_shl (js_and 128 0x7f) 21) = 0" by code_simp
  have i4: "js_or 0 (js_shl (js_and 8 0x7f) 28) = - 2147483648" by code_simp
  have c: "js_and 128 0x80 \<noteq> 0" "js_and 8 0x80 = 0" by code_simp+
  show ?thesis
    unfolding varintDecode_def
    apply (subst varintDecode_loop.simps)
    apply (simp add: el [of 0, simplified] to_number_def i0 c)
    apply (subst varintDecode_loop.simps)
    apply (simp add: el [of 1, simplified] to_number_def i1 c)
    apply (subst varintDecode_loop.simps)
    apply (simp add: el [of 2, simplified] to_number_def i2 c)
    apply (subst varintDecode_loop.simps)
    apply (simp add: el [of 3, simplified] to_number_def i3 c)
    apply (subst varintDecode_loop.simps)
    apply (simp add: el [of 4, simplified] to_number_def i4 c)
    done
qed

lemma decode_huge_authData:
  fixes a s :: bytes
  assumes la: "length a = 2147483648" and ls: "length s = 64"
  shows "decodeWebAuthnVarsig ([0xD1, 0x5D, 0x80, 0x80, 0x80, 0x80, 0x08] @ a @ [0] @ s)
         = Inl (InvalidEd25519SignatureLength 2147483640)"
proof -
  let ?v = "[0xD1, 0x5D, 0x80, 0x80, 0x80, 0x80, 0x08] @ a @ [0] @ s"
  have lv: "length ?v = 2147483720" using la ls by simp
  have "varintDecode ([] @ varintEncode WEBAUTHN_ED25519 @ ([0x80, 0x80, 0x80, 0x80, 0x08] @ a @ [0] @ s))
          (int (length ([] :: bytes))) = Inr (WEBAUTHN_ED25519, length (varintEncode WEBAUTHN_ED25519))"
    by (rule varintDecode_varintEncode_at) (simp_all add: WEBAUTHN_ED25519_def)
  then have F0: "varintDecode ?v 0 = Inr (WEBAUTHN_ED25519, 2)"
    by (simp add: varintEncode_tags)
  have F1: "varintDecode ?v 2 = Inr (- 2147483648, 5)"
    using varintDecode_2_31_at [of "[0xD1, 0x5D]" "a @ [0] @ s"] by simp
  have F2: "varintDecode ?v (- 2147483641) = Inr (0, 1)"
    by (rule varintDecode_negative_offset) simp
  have sg: "length (slice_from ?v (- 2147483640)) = 2147483640"
    unfolding slice_from_def slice_def Let_def lv using la ls by simp
  show ?thesis
    unfolding decodeWebAuthnVarsig_def
    by (simp add: F0 F1 F2 sg lv Let_def getAlgorithm_def WEBAUTHN_ED25519_def WEBAUTHN_P256_def
          del: append.simps)
qed

lemma varintEncode_2_32_minus_72: "varintEncode 4294967224 = [0xB8, 0xFF, 0xFF, 0xFF, 0x0F]"
  by code_simp

lemma varintDecode_minus_72_at:
  "varintDecode (pre @ [0xB8, 0xFF, 0xFF, 0xFF, 0x0F] @ post) (int (length pre))
   = Inr (- 72, 5)"
proof -
  have el: "elem (pre @ [0xB8, 0xFF, 0xFF, 0xFF, 0x0F] @ post) (int (length pre) + int i)
      = Some (uint (([0xB8, 0xFF, 0xFF, 0xFF, 0x0F] :: bytes) ! i))" if "i < 5" for i
    using that by (intro elem_middle) simp
  have i0: "js_or 0 (js_shl (js_and 184 0x7f) 0) = 56" by code_simp
  have i1: "js_or 56 (js_shl (js_and 255 0x7f) 7) = 16312" by code_simp
  have i2: "js_or 16312 (js_shl (js_and 255 0x7f) 14) = 2097080" by code_simp
  have i3: "js_or 2097080 (js_shl (js_and 255 0x7f) 21) = 268435384" by code_simp
  have i4: "js_or 268435384 (js_shl (js_and 15 0x7f) 28) = - 72" by code_simp
  have c: "js_and 184 0x80 \<noteq> 0" "js_and 255 0x80 \<noteq> 0" "js_and 15 0x80 = 0" by code_simp+
  show ?thesis
    unfolding varintDecode_def
    apply (subst varintDecode_loop.simps)
    apply (simp add: el [of 0, simplified] to_number_def i0 c)
    apply (subst varintDecode_loop.simps)
    apply (simp add: el [of 1, simplified] to_number_def i1 c)
    apply (subst varintDecode_loop.simps)
    apply (simp add: el [of 2, simplified] to_number_def i2 c)
    apply (subst varintDecode_loop.simps)
    apply (simp add: el [of 3, simplified] to_number_def i3 c)
    apply (subst varintDecode_loop.simps)
    apply (simp add: el [of 4, simplified] to_number_def i4 c)
    done
qed

lemma decode_authData_2_32_minus_72:
  fixes a s :: bytes
  assumes la: "length a = 4294967224" and ls: "length s = 63"
  shows "decodeWebAuthnVarsig ([0xD1, 0x5D, 0xB8, 0xFF, 0xFF, 0xFF, 0x0F] @ a @ [0] @ s)
         = Inr \<lparr>authenticatorData = take 4294967223 a, clientDataJSON = [],
                signature = 0 # s, multicodec = 0x2ed1, algorithm = Some Ed25519\<rparr>"
proof -
  let ?v = "[0xD1, 0x5D, 0xB8, 0xFF, 0xFF, 0xFF, 0x0F] @ a @ [0] @ s"
  have lv: "length ?v = 4294967295" using la ls by simp
  have "varintDecode ([] @ varintEncode WEBAUTHN_ED25519 @ ([0xB8, 0xFF, 0xFF, 0xFF, 0x0F] @ a @ [0] @ s))
          (int (length ([] :: bytes))) = Inr (WEBAUTHN_ED25519, length (varintEncode WEBAUTHN_ED25519))"
    by (rule varintDecode_varintEncode_at) (simp_all add: WEBAUTHN_ED25519_def)
  then have F0: "varintDecode ?v 0 = Inr (WEBAUTHN_ED25519, 2)"
    by (simp add: varintEncode_tags)
  have F1: "varintDecode ?v 2 = Inr (- 72, 5)"
    using varintDecode_minus_72_at [of "[0xD1, 0x5D]" "a @ [0] @ s"] by simp
  have F2: "varintDecode ?v (- 65) = Inr (0, 1)"
    by (rule varintDecode_negative_offset) simp
  have ad: "slice ?v 7 (- 65) = take 4294967223 a"
    unfolding slice_def Let_def lv using la ls by simp
  have cd: "slice ?v (- 64) (- 64) = []"
    unfolding slice_def Let_def lv by simp
  have sg: "slice_from ?v (- 64) = 0 # s"
    unfolding slice_from_def slice_def Let_def lv using la ls by simp
  show ?thesis
    unfolding decodeWebAuthnVarsig_def
    by (simp add: F0 F1 F2 ad cd sg lv ls Let_def getAlgorithm_def WEBAUTHN_ED25519_def
          WEBAUTHN_P256_def del: append.simps)
qed

section \<open>The structural verifier\<close>



lemma flags_byte: "37 \<le> length ad \<Longrightarrow> to_number (elem ad 32) = uint (ad ! 32)"
  by (simp add: elem_def to_number_def)

lemma flags_of_01:
  "js_and 1 0x01 \<noteq> 0" "js_and 1 0x04 = 0" "js_and 1 0x08 = 0" "js_and 1 0x10 = 0"
  by code_simp+



section \<open>base64 and base64url\<close>

lemma index_in_nth: "distinct xs \<Longrightarrow> i < length xs \<Longrightarrow> index_in xs (xs ! i) = Some i"
proof (induction xs arbitrary: i)
  case Nil
  then show ?case by simp
next
  case (Cons x xs)
  show ?case
  proof (cases i)
    case 0
    then show ?thesis by simp
  next
    case (Suc j)
    then have "xs ! j \<in> set xs" using Cons.prems by simp
    then have "x \<noteq> xs ! j" using Cons.prems by auto
    then show ?thesis using Suc Cons by simp
  qed
qed

lemma b64chars_distinct: "distinct b64chars"
  by (simp add: b64chars_def)

lemma b64chars_length: "length b64chars = 64"
  by (simp add: b64chars_def)

lemma b64index_b64char: "i < 64 \<Longrightarrow> b64index (b64char i) = Some i"
  by (simp add: b64index_def b64char_def index_in_nth b64chars_distinct b64chars_length)

lemma b64char_in: "i < 64 \<Longrightarrow> b64char i \<in> set b64chars"
  by (simp add: b64char_def b64chars_length)

lemma b64chars_plain:
  "c \<in> set b64chars \<Longrightarrow> c \<noteq> CHR ''='' \<and> c \<noteq> CHR ''-'' \<and> c \<noteq> CHR ''_'' \<and> \<not> ascii_whitespace c"
  by (auto simp: b64chars_def ascii_whitespace_def)

lemma btoa_groups_sextets:
  "btoa_groups ns = map b64char (sextets ns) @ b64pad (length ns)"
  by (induction ns rule: btoa_groups.induct) (simp_all add: b64pad_def numeral_2_eq_2)

lemma sextets_bound: "\<forall>n \<in> set ns. n < 256 \<Longrightarrow> \<forall>x \<in> set (sextets ns). x < 64"
  by (induction ns rule: sextets.induct) auto

lemma sextets_length: "length (sextets ns) = (4 * length ns + 2) div 3"
  by (induction ns rule: sextets.induct) simp_all

lemma atob_groups_sextets: "\<forall>n \<in> set ns. n < 256 \<Longrightarrow> atob_groups (sextets ns) = ns"
proof (induction ns rule: sextets.induct)
  case 1
  then show ?case by simp
next
  case (2 a)
  then show ?case by simp
next
  case (3 a b)
  then have "b < 256" by simp
  then have "((a mod 4) * 16 + b div 16) div 16 = a mod 4"
    "((a mod 4) * 16 + b div 16) mod 16 = b div 16" by simp_all
  then show ?case by simp
next
  case (4 a b c rest)
  then have bc: "b < 256" "c < 256" by simp_all
  then have e: "((a mod 4) * 16 + b div 16) div 16 = a mod 4"
    "((a mod 4) * 16 + b div 16) mod 16 = b div 16"
    "((b mod 16) * 4 + c div 64) div 4 = b mod 16"
    "((b mod 16) * 4 + c div 64) mod 4 = c div 64" by simp_all
  have "atob_groups (sextets rest) = rest" using 4 by simp
  then show ?case using e by simp
qed

lemma replace_char_single: "replace_char x [y] s = map (\<lambda>c. if c = x then y else c) s"
  by (induction s) (simp_all add: replace_char_def)

lemma replace_char_delete: "replace_char x [] s = filter (\<lambda>c. c \<noteq> x) s"
  by (induction s) (simp_all add: replace_char_def)

lemma b64_length_cases:
  fixes n :: nat
  obtains (full) q where "n = 3 * q" "(4 * n + 2) div 3 = 4 * q"
  | (one) q where "n = 3 * q + 1" "(4 * n + 2) div 3 = 4 * q + 2"
  | (two) q where "n = 3 * q + 2" "(4 * n + 2) div 3 = 4 * q + 3"
proof -
  define q where "q = n div 3"
  consider "n mod 3 = 0" | "n mod 3 = 1" | "n mod 3 = 2" by linarith
  then show thesis
  proof cases
    case 1
    then have n: "n = 3 * q" unfolding q_def by presburger
    have "(4 * (3 * q) + 2) div 3 = 4 * q" by arith
    then show thesis using n full by simp
  next
    case 2
    then have n: "n = 3 * q + 1" unfolding q_def by presburger
    have "(4 * (3 * q + 1) + 2) div 3 = 4 * q + 2" by arith
    then show thesis using n one by simp
  next
    case 3
    then have n: "n = 3 * q + 2" unfolding q_def by presburger
    have "(4 * (3 * q + 2) + 2) div 3 = 4 * q + 3" by arith
    then show thesis using n two by simp
  qed
qed

lemma b64_padding_length:
  "(4 - ((4 * n + 2) div 3) mod 4) mod 4 = (3 - n mod 3) mod (3::nat)"
proof (cases n rule: b64_length_cases)
  case (full q) then show ?thesis by simp
next
  case (one q) then show ?thesis by (simp add: mod_Suc)
next
  case (two q) then show ?thesis by (simp add: mod_Suc)
qed

lemma b64_body_length: "((4 * n + 2) div 3) mod 4 \<noteq> (1::nat)"
proof (cases n rule: b64_length_cases)
  case (full q) then show ?thesis by simp
next
  case (one q) then show ?thesis by (simp add: mod_Suc)
next
  case (two q) then show ?thesis by (simp add: mod_Suc)
qed

lemma b64_total_length: "((4 * n + 2) div 3 + (3 - n mod 3) mod 3) mod 4 = (0::nat)"
proof (cases n rule: b64_length_cases)
  case (full q) then show ?thesis by simp
next
  case (one q) then show ?thesis by (simp add: mod_Suc)
next
  case (two q) then show ?thesis by (simp add: mod_Suc)
qed

lemma strip_padding_body:
  assumes "\<forall>c \<in> set body. c \<noteq> CHR ''=''" "k \<le> 2" "(length body + k) mod 4 = 0"
  shows "strip_padding (body @ replicate k CHR ''='') = body"
proof -
  consider "k = 0" | "k = 1" | "k = 2" using assms(2) by linarith
  then show ?thesis
  proof cases
    case 1
    then show ?thesis using assms by (cases body rule: rev_cases) (auto simp: strip_padding_def)
  next
    case 2
    then show ?thesis using assms
      by (cases body rule: rev_cases) (auto simp: strip_padding_def butlast_append)
  next
    case 3
    then have r: "replicate k CHR ''='' = ''==''" by (simp add: numeral_2_eq_2)
    have "body @ ''=='' = (body @ ''='') @ ''=''" by simp
    then show ?thesis using assms 3 unfolding r
      by (simp add: strip_padding_def butlast_append)
  qed
qed

lemma those_b64index:
  "\<forall>x \<in> set sx. x < 64 \<Longrightarrow> those (map b64index (map b64char sx)) = Some sx"
  by (induction sx) (simp_all add: b64index_b64char)

lemma atob_btoa_groups:
  assumes "\<forall>n \<in> set ns. n < 256"
  shows "atob (map b64char (sextets ns) @ b64pad (length ns)) = Inr (map char_of ns)"
proof -
  let ?body = "map b64char (sextets ns)"
  have sx: "\<forall>x \<in> set (sextets ns). x < 64" using assms by (rule sextets_bound)
  have inalpha: "\<forall>c \<in> set ?body. c \<in> set b64chars" using sx by (auto simp: b64char_in)
  then have plain: "\<forall>c \<in> set ?body. c \<noteq> CHR ''='' \<and> \<not> ascii_whitespace c"
    using b64chars_plain by blast
  have ws: "filter (\<lambda>c. \<not> ascii_whitespace c) (?body @ b64pad (length ns))
      = ?body @ b64pad (length ns)"
    using plain by (auto simp: b64pad_def ascii_whitespace_def filter_id_conv)
  have strip: "strip_padding (?body @ b64pad (length ns)) = ?body"
    unfolding b64pad_def
  proof (rule strip_padding_body)
    show "\<forall>c \<in> set ?body. c \<noteq> CHR ''=''" using plain by simp
    show "(3 - length ns mod 3) mod 3 \<le> 2" by simp
    show "(length ?body + (3 - length ns mod 3) mod 3) mod 4 = 0"
      by (simp only: length_map sextets_length b64_total_length)
  qed
  have l1: "length ?body mod 4 \<noteq> 1"
    by (simp only: length_map sextets_length b64_body_length not_False_eq_True)
  show ?thesis
    unfolding atob_def ws strip Let_def using l1
    by (simp add: those_b64index [OF sx] atob_groups_sextets [OF assms] del: map_map)
qed

lemma byte_lt_256: "unat (x :: byte) < 256"
  using unsigned_less [of x, where ?'a = nat] by simp

lemma binary_string_codes:
  "\<forall>n \<in> set ns. n < 256 \<Longrightarrow> map of_char (map char_of ns :: string) = (ns :: nat list)"
  by (induction ns) simp_all

lemma bytes_of_binary_string:
  "map (\<lambda>ch. of_nat (of_char ch)) (map char_of (map unat b) :: string) = (b :: bytes)"
proof -
  have "of_nat (of_char (char_of (unat x) :: char)) = x" for x :: byte
  proof -
    have "unat x < 256" using byte_lt_256 [of x] by simp
    then show ?thesis by simp
  qed
  then show ?thesis by (induction b) simp_all
qed

lemma btoa_of_bytes:
  "btoa (map (\<lambda>x. char_of (unat x)) (b :: bytes))
   = map b64char (sextets (map unat b)) @ b64pad (length b)"
proof -
  have lt: "\<forall>n \<in> set (map unat b). n < 256"
  proof
    fix n assume "n \<in> set (map unat b)"
    then obtain x :: byte where "n = unat x" by auto
    then show "n < 256" using byte_lt_256 [of x] by simp
  qed
  have "map (\<lambda>x. char_of (unat x)) b = (map char_of (map unat b) :: string)" by simp
  then have "btoa (map (\<lambda>x. char_of (unat x)) b) = btoa_groups (map unat b)"
    unfolding btoa_def using binary_string_codes [OF lt] by (simp del: map_map)
  then show ?thesis by (simp add: btoa_groups_sextets)
qed

lemma bytesToBase64url_eq:
  "bytesToBase64url b = map to_url (map b64char (sextets (map unat b)))"
proof -
  let ?body = "map b64char (sextets (map unat b))"
  have sx: "\<forall>x \<in> set (sextets (map unat b)). x < 64"
  proof (rule sextets_bound, rule)
    fix n assume "n \<in> set (map unat b)"
    then obtain x :: byte where "n = unat x" by auto
    then show "n < 256" using byte_lt_256 [of x] by simp
  qed
  then have plain: "\<forall>c \<in> set ?body. c \<noteq> CHR ''=''"
    using b64chars_plain by (auto simp: b64char_in)
  have m: "map (\<lambda>c. if c = CHR ''/'' then CHR ''_'' else c)
             (map (\<lambda>c. if c = CHR ''+'' then CHR ''-'' else c) s) = map to_url s" for s
    by (induction s) (simp_all add: to_url_def)
  have keep: "filter (\<lambda>c. c \<noteq> CHR ''='') (map to_url ?body) = map to_url ?body"
    using plain by (auto simp: filter_id_conv to_url_def)
  have drop: "filter (\<lambda>c. c \<noteq> CHR ''='') (map to_url (b64pad n)) = []" for n
    by (simp add: b64pad_def to_url_def)
  show ?thesis
    unfolding bytesToBase64url_def Let_def btoa_of_bytes
      replace_char_single replace_char_delete m
    using keep drop by (simp del: map_map)
qed

lemma to_url_of_b64chars:
  assumes "c \<in> set b64chars"
  shows "to_url c \<noteq> CHR ''+''" "to_url c \<noteq> CHR ''/''" "to_url c \<noteq> CHR ''=''"
    "(if (if to_url c = CHR ''-'' then CHR ''+'' else to_url c) = CHR ''_'' then CHR ''/''
      else (if to_url c = CHR ''-'' then CHR ''+'' else to_url c)) = c"
  using b64chars_plain [OF assms] by (auto simp: to_url_def)

lemma from_url_to_url:
  "\<forall>c \<in> set s. c \<in> set b64chars
   \<Longrightarrow> replace_char CHR ''_'' ''/'' (replace_char CHR ''-'' ''+'' (map to_url s)) = s"
  unfolding replace_char_single
  by (induction s) (simp_all add: to_url_of_b64chars(4))

lemma to_url_avoids:
  "\<forall>c \<in> set s. c \<in> set b64chars
   \<Longrightarrow> CHR ''+'' \<notin> set (map to_url s) \<and> CHR ''/'' \<notin> set (map to_url s)
       \<and> CHR ''='' \<notin> set (map to_url s)"
proof (induction s)
  case Nil
  then show ?case by simp
next
  case (Cons a s)
  then have "a \<in> set b64chars" by simp
  then have "CHR ''+'' \<noteq> to_url a" "CHR ''/'' \<noteq> to_url a" "CHR ''='' \<noteq> to_url a"
    using to_url_of_b64chars(1,2,3) [of a] by simp_all
  then show ?case using Cons by simp
qed

section \<open>Identifiers\<close>

lemma set_at_tail:
  "length pre = n \<Longrightarrow> length rest = length arr
   \<Longrightarrow> set_at (pre @ rest) arr n = Inr (pre @ arr)"
  by (simp add: set_at_def)

lemma createEd25519Did_eq:
  "createEd25519Did enc pk = Inr (''did:key:'' @ enc ([0xed, 0x01] @ pk))"
proof -
  have m: "(replicate (2 + length pk) 0)[0 := 0xed, 1 := 0x01]
      = [0xed, 0x01 :: byte] @ replicate (length pk) 0"
    by simp
  have st: "set_at ([0xed, 0x01] @ replicate (length pk) 0) pk 2 = Inr ([0xed, 0x01] @ pk)"
    by (rule set_at_tail) simp_all
  show ?thesis
    unfolding createEd25519Did_def Let_def m st by simp
qed

lemma createP256Did_eq:
  "createP256Did enc pk = Inr (''did:key:'' @ enc ([0x80, 0x24] @ pk))"
proof -
  have a: "set_at (replicate (length [0x80, 0x24 :: byte] + length pk) 0) [0x80, 0x24] 0
      = Inr ([0x80, 0x24] @ replicate (length pk) 0)"
    by (simp add: set_at_def)
  have b: "set_at ([0x80, 0x24] @ replicate (length pk) 0) pk (length [0x80, 0x24 :: byte])
      = Inr ([0x80, 0x24] @ pk)"
    by (rule set_at_tail) simp_all
  show ?thesis
    unfolding createP256Did_def Let_def a
    by (simp add: b del: append.simps length_Cons list.size)
qed

lemma extractPublicKeyFromDid_eq:
  assumes "dec (enc (t1 # t2 # pk)) = Inr (t1 # t2 # pk)"
    and "take 1 (enc (t1 # t2 # pk)) = ''z''"
  shows "extractPublicKeyFromDid dec (''did:key:'' @ enc (t1 # t2 # pk)) = Inr pk"
proof -
  obtain body where e: "enc (t1 # t2 # pk) = CHR ''z'' # body"
    using assms(2) by (cases "enc (t1 # t2 # pk)") simp_all
  have p: "take 9 (''did:key:'' @ enc (t1 # t2 # pk)) = ''did:key:z''" by (simp add: e)
  have s: "slice_from (''did:key:'' @ enc (t1 # t2 # pk)) 8 = enc (t1 # t2 # pk)"
    using slice_from_append [of "''did:key:''" "enc (t1 # t2 # pk)"] by simp
  have k: "slice_from (t1 # t2 # pk) 2 = pk"
    using slice_from_append [of "[t1, t2]" pk] by simp
  show ?thesis
    unfolding extractPublicKeyFromDid_def Let_def s
    using p assms(1) k by simp
qed

lemma varintEncode_pub_tags:
  "varintEncode P256_PUB = [0x80, 0x24]" "varintEncode ED25519_PUB = [0xed, 0x01]"
  by code_simp+

section \<open>The base58btc model decodes what it encodes\<close>

lemma digits_to_int_snoc: "digits_to_int b (xs @ [x]) = digits_to_int b xs * b + x"
  by (simp add: digits_to_int_def)

lemma digits_to_int_zeros: "digits_to_int b (replicate z 0 @ ds) = digits_to_int b ds"
proof -
  have "foldl (\<lambda>acc d. acc * b + d) 0 (replicate z 0) = 0"
    by (induction z) simp_all
  then show ?thesis by (simp add: digits_to_int_def)
qed

lemma int_to_digits_nonempty: "2 \<le> b \<Longrightarrow> 0 < n \<Longrightarrow> int_to_digits b n \<noteq> []"
  by (subst int_to_digits.simps) simp

lemma int_to_digits_nonpos: "n \<le> 0 \<Longrightarrow> int_to_digits b n = []"
  by (subst int_to_digits.simps) simp

lemma int_to_digits_range:
  "2 \<le> b \<Longrightarrow> \<forall>d \<in> set (int_to_digits b n). 0 \<le> d \<and> d < b"
proof (induction b n rule: int_to_digits.induct)
  case (1 base n)
  show ?case
  proof (cases "n \<le> 0")
    case True
    then show ?thesis by (simp add: int_to_digits_nonpos)
  next
    case False
    then have c: "\<not> (n \<le> 0 \<or> base < 2)" using 1(2) by simp
    have e: "int_to_digits base n = int_to_digits base (n div base) @ [n mod base]"
      using c by (subst int_to_digits.simps) simp
    have m: "0 \<le> n mod base" "n mod base < base" using 1(2) by simp_all
    show ?thesis unfolding e using 1(1) [OF c 1(2)] m by simp
  qed
qed

lemma int_to_digits_hd:
  "2 \<le> b \<Longrightarrow> int_to_digits b n \<noteq> [] \<Longrightarrow> hd (int_to_digits b n) \<noteq> 0"
proof (induction b n rule: int_to_digits.induct)
  case (1 base n)
  have pos: "0 < n" using 1(3) int_to_digits_nonpos [of n base] by (cases "n \<le> 0") simp_all
  have e: "int_to_digits base n = int_to_digits base (n div base) @ [n mod base]"
    using 1(2) pos by (subst int_to_digits.simps) simp
  show ?case
  proof (cases "n div base \<le> 0")
    case True
    then have "n div base = 0" using pos 1(2) by (simp add: pos_imp_zdiv_nonneg_iff order_antisym)
    then have "n mod base = n" using div_mult_mod_eq [of n base] by simp
    then show ?thesis using e True pos by (simp add: int_to_digits_nonpos)
  next
    case False
    then have ne: "int_to_digits base (n div base) \<noteq> []"
      using 1(2) by (simp add: int_to_digits_nonempty)
    have c: "\<not> (n \<le> 0 \<or> base < 2)" using pos 1(2) by simp
    have "hd (int_to_digits base (n div base)) \<noteq> 0"
      by (rule 1(1) [OF c 1(2) ne])
    then show ?thesis unfolding e using ne by simp
  qed
qed

lemma digits_to_int_int_to_digits:
  "2 \<le> b \<Longrightarrow> 0 \<le> n \<Longrightarrow> digits_to_int b (int_to_digits b n) = n"
proof (induction b n rule: int_to_digits.induct)
  case (1 base n)
  show ?case
  proof (cases "n \<le> 0")
    case True
    then show ?thesis using 1(3) by (simp add: int_to_digits_nonpos digits_to_int_def)
  next
    case False
    then have e: "int_to_digits base n = int_to_digits base (n div base) @ [n mod base]"
      using 1(2) by (subst int_to_digits.simps) simp
    have c: "\<not> (n \<le> 0 \<or> base < 2)" using False 1(2) by simp
    have "0 \<le> n div base" using 1(2,3) by (simp add: pos_imp_zdiv_nonneg_iff)
    then have "digits_to_int base (int_to_digits base (n div base)) = n div base"
      by (rule 1(1) [OF c 1(2)])
    then show ?thesis unfolding e by (simp add: digits_to_int_snoc)
  qed
qed

lemma int_to_digits_digits_to_int:
  "2 \<le> b \<Longrightarrow> \<forall>d \<in> set ds. 0 \<le> d \<and> d < b \<Longrightarrow> (ds \<noteq> [] \<longrightarrow> hd ds \<noteq> 0)
   \<Longrightarrow> int_to_digits b (digits_to_int b ds) = ds"
proof (induction ds rule: rev_induct)
  case Nil
  then show ?case by (simp add: digits_to_int_def int_to_digits_nonpos)
next
  case (snoc x xs)
  let ?m = "digits_to_int b xs"
  have x: "0 \<le> x" "x < b" using snoc.prems by simp_all
  have ih: "int_to_digits b ?m = xs"
  proof (cases xs)
    case Nil
    then show ?thesis by (simp add: digits_to_int_def int_to_digits_nonpos)
  next
    case (Cons y ys)
    then show ?thesis using snoc by simp
  qed
  have m0: "0 \<le> ?m"
  proof (rule ccontr)
    assume "\<not> 0 \<le> ?m"
    then have "int_to_digits b ?m = []" by (simp add: int_to_digits_nonpos)
    then have "xs = []" using ih by simp
    then show False using \<open>\<not> 0 \<le> ?m\<close> by (simp add: digits_to_int_def)
  qed
  have pos: "0 < ?m * b + x"
  proof (cases xs)
    case Nil
    then have "x \<noteq> 0" using snoc.prems by simp
    then show ?thesis using x Nil by (simp add: digits_to_int_def)
  next
    case (Cons y ys)
    then have "?m \<noteq> 0" using ih by (auto simp: int_to_digits_nonpos)
    then have "0 < ?m" using m0 by simp
    then have "0 < ?m * b" using snoc.prems(1) by simp
    then show ?thesis using x by simp
  qed
  have dv: "(?m * b + x) div b = ?m" "x mod b = x"
    using x snoc.prems(1) by simp_all
  have "int_to_digits b (?m * b + x) = int_to_digits b ((?m * b + x) div b) @ [(?m * b + x) mod b]"
    using pos snoc.prems(1) by (subst int_to_digits.simps) simp
  then show ?case by (simp add: digits_to_int_snoc dv ih)
qed

lemma b58chars_distinct: "distinct b58chars"
  by (simp add: b58chars_def)

lemma b58chars_length: "length b58chars = 58"
  by (simp add: b58chars_def)

lemma b58chars_zero: "b58chars ! 0 = CHR ''1''"
  by (simp add: b58chars_def)

lemma base58_digit_index:
  "0 \<le> d \<Longrightarrow> d < 58 \<Longrightarrow> index_in b58chars (b58chars ! nat d) = Some (nat d)"
  by (rule index_in_nth) (simp_all add: b58chars_distinct b58chars_length)

lemma base58_indices:
  assumes "\<forall>d \<in> set ds. 0 \<le> d \<and> d < 58"
  shows "those (map (index_in b58chars)
           (replicate z CHR ''1'' @ map (\<lambda>d. b58chars ! nat d) ds))
         = Some (replicate z 0 @ map nat ds)"
proof -
  have one: "index_in b58chars CHR ''1'' = Some 0"
    using index_in_nth [OF b58chars_distinct, of 0] by (simp add: b58chars_length b58chars_zero)
  have d: "those (map (index_in b58chars) (map (\<lambda>d. b58chars ! nat d) ds)) = Some (map nat ds)"
    using assms by (induction ds) (simp_all add: base58_digit_index)
  show ?thesis by (induction z) (simp_all add: one d del: map_map)
qed

lemma leading_zeros_of_digits:
  assumes "\<forall>d \<in> set ds. 0 \<le> (d :: int)" "ds \<noteq> [] \<longrightarrow> hd ds \<noteq> 0"
  shows "takeWhile (\<lambda>d. d = 0) (replicate z 0 @ map nat ds) = replicate z 0"
proof -
  have "takeWhile (\<lambda>d. d = 0) (map nat ds) = []"
  proof (cases ds)
    case Nil
    then show ?thesis by simp
  next
    case (Cons x xs)
    then have "0 < x" using assms by (cases "x = 0") auto
    then show ?thesis using Cons by simp
  qed
  then show ?thesis by (induction z) simp_all
qed

lemma digits_to_int_nonneg:
  "0 \<le> b \<Longrightarrow> \<forall>d \<in> set ds. 0 \<le> d \<Longrightarrow> 0 \<le> digits_to_int b ds"
  by (induction ds rule: rev_induct) (simp_all add: digits_to_int_snoc, simp add: digits_to_int_def)

lemma int_of_nat_digits: "\<forall>d \<in> set ds. 0 \<le> (d :: int) \<Longrightarrow> map int (map nat ds) = ds"
  by (induction ds) simp_all

lemma bytes_split_zeros:
  fixes bs :: bytes
  shows "map uint bs = replicate (length (takeWhile (\<lambda>b. b = 0) bs)) 0
                       @ map uint (dropWhile (\<lambda>b. b = 0) bs)"
  by (induction bs) simp_all

lemma bytes_canonical:
  fixes bs :: bytes
  shows "\<forall>d \<in> set (map uint (dropWhile (\<lambda>b. b = 0) bs)). 0 \<le> d \<and> d < 256"
    and "map uint (dropWhile (\<lambda>b. b = 0) bs) \<noteq> []
         \<longrightarrow> hd (map uint (dropWhile (\<lambda>b. b = 0) bs)) \<noteq> 0"
proof -
  show "\<forall>d \<in> set (map uint (dropWhile (\<lambda>b. b = 0) bs)). 0 \<le> d \<and> d < 256"
  proof
    fix d assume "d \<in> set (map uint (dropWhile (\<lambda>b. b = 0) bs))"
    then obtain x :: byte where "d = uint x" by auto
    then show "0 \<le> d \<and> d < 256" using uint_lt2p [of x] by simp
  qed
  show "map uint (dropWhile (\<lambda>b. b = 0) bs) \<noteq> []
         \<longrightarrow> hd (map uint (dropWhile (\<lambda>b. b = 0) bs)) \<noteq> 0"
  proof
    assume "map uint (dropWhile (\<lambda>b. b = 0) bs) \<noteq> []"
    then have ne: "dropWhile (\<lambda>b. b = 0) bs \<noteq> []" by simp
    then have "hd (dropWhile (\<lambda>b. b = 0) bs) \<noteq> 0" using hd_dropWhile [of "\<lambda>b. b = 0" bs] by simp
    then show "hd (map uint (dropWhile (\<lambda>b. b = 0) bs)) \<noteq> 0"
      using ne by (simp add: hd_map uint_0_iff)
  qed
qed

lemma base58btc_roundtrip: "base58btc_decode (base58btc_encode bs) = Inr bs"
proof -
  let ?z = "length (takeWhile (\<lambda>b. b = 0) bs)"
  let ?rest = "map uint (dropWhile (\<lambda>b. b = 0) bs)"
  let ?n = "digits_to_int 256 (map uint bs)"
  let ?ds = "int_to_digits 58 ?n"
  have n: "?n = digits_to_int 256 ?rest"
    using bytes_split_zeros [of bs] digits_to_int_zeros [of 256 ?z ?rest] by simp
  have back256: "int_to_digits 256 ?n = ?rest"
    unfolding n using bytes_canonical [of bs] by (intro int_to_digits_digits_to_int) simp_all
  have n0: "0 \<le> ?n"
    by (rule digits_to_int_nonneg) simp_all
  have range: "\<forall>d \<in> set ?ds. 0 \<le> d \<and> d < 58" by (rule int_to_digits_range) simp
  have nonneg: "\<forall>d \<in> set ?ds. 0 \<le> d" using range by simp
  have hd0: "?ds \<noteq> [] \<longrightarrow> hd ?ds \<noteq> 0" using int_to_digits_hd [of 58 ?n] by simp
  have idx: "those (map (index_in b58chars)
               (replicate ?z CHR ''1'' @ map (\<lambda>d. b58chars ! nat d) ?ds))
             = Some (replicate ?z 0 @ map nat ?ds)"
    using range by (rule base58_indices)
  have tw: "takeWhile (\<lambda>d. d = 0) (replicate ?z 0 @ map nat ?ds) = replicate ?z 0"
    using nonneg hd0 by (rule leading_zeros_of_digits)
  have val: "digits_to_int 58 (map int (replicate ?z 0 @ map nat ?ds)) = ?n"
  proof -
    have "map int (replicate ?z 0 @ map nat ?ds) = replicate ?z 0 @ ?ds"
      using int_of_nat_digits [OF nonneg] by simp
    then show ?thesis
      using digits_to_int_zeros [of 58 ?z ?ds] digits_to_int_int_to_digits [of 58 ?n] n0
      by simp
  qed
  have bytes: "replicate ?z 0 @ map of_int ?rest = bs"
  proof -
    have "map of_int ?rest = dropWhile (\<lambda>b. b = 0) bs" by (simp add: comp_def)
    moreover have "replicate ?z 0 = takeWhile (\<lambda>b. b = 0) bs"
      by (induction bs) simp_all
    ultimately show ?thesis by simp
  qed
  show ?thesis
    unfolding base58btc_encode_def base58btc_decode_def
    by (simp add: idx tw val back256 bytes del: map_map map_append replicate_append_same)
qed

section \<open>Claims\<close>

text \<open>
  C1. The claim: for every unsigned integer \<open>n\<close> in \<open>[0, 2^32)\<close>, decoding the encoding
  of \<open>n\<close> returns \<open>n\<close> and the number of bytes of the encoding; \<open>varintEncode(300)\<close> is
  \<open>[0xAC, 0x02]\<close> and \<open>varintDecode([0xAC, 0x02], 0)\<close> is \<open>(300, 2)\<close>.
  The two concrete instances hold, and the round trip holds below \<open>2^31\<close>
  (\<open>varint_roundtrip_below_2_31\<close>). At \<open>n = 2^31\<close> the encoder produces the five bytes
  \<open>80 80 80 80 08\<close> and the decoder, whose \<open>|=\<close> and \<open><<\<close> work on signed 32-bit
  values, returns \<open>-2^31\<close>: the round trip fails from \<open>2^31\<close> on.
\<close>

theorem varint_roundtrip_fails_at_2_31:
  "varintEncode 300 = [0xAC, 0x02]
   \<and> varintDecode [0xAC, 0x02] 0 = Inr (300, 2)
   \<and> varintEncode (2 ^ 31) = [0x80, 0x80, 0x80, 0x80, 0x08]
   \<and> varintDecode (varintEncode (2 ^ 31)) 0 = Inr (- (2 ^ 31), 5)
   \<and> varintDecode (varintEncode (2 ^ 31)) 0 \<noteq> Inr (2 ^ 31, length (varintEncode (2 ^ 31)))"
  by code_simp




text \<open>
  C3. The claim: for both algorithms and all byte strings whose signature has a legal
  length, decoding the encoding gives back the tag, the authenticator data, the client
  data and the signature.
  The round trip holds when authenticator data and client data are shorter than \<open>2^31\<close>
  bytes (\<open>decode_encode_bounded\<close>). With authenticator data of \<open>2^31\<close> bytes the length
  prefix decodes to \<open>-2^31\<close>, the decoder steps back before the start of the buffer, and
  the envelope is rejected.
\<close>

theorem envelope_roundtrip_fails_at_2_31_bytes:
  "encodeWebAuthnVarsig
     \<lparr>authenticatorData = replicate 2147483648 0, clientDataJSON = [],
      signature = replicate 64 0\<rparr> Ed25519
   = Inr ([0xD1, 0x5D, 0x80, 0x80, 0x80, 0x80, 0x08] @ replicate 2147483648 0 @ [0]
          @ replicate 64 0)
   \<and> decodeWebAuthnVarsig
       ([0xD1, 0x5D, 0x80, 0x80, 0x80, 0x80, 0x08] @ replicate 2147483648 0 @ [0]
        @ replicate 64 0)
     = Inl (InvalidEd25519SignatureLength 2147483640)"
proof
  show "encodeWebAuthnVarsig
     \<lparr>authenticatorData = replicate 2147483648 0, clientDataJSON = [],
      signature = replicate 64 0\<rparr> Ed25519
   = Inr ([0xD1, 0x5D, 0x80, 0x80, 0x80, 0x80, 0x08] @ replicate 2147483648 0 @ [0]
          @ replicate 64 0)"
    by (simp add: encodeWebAuthnVarsig_eq varintEncode_tags)
  show "decodeWebAuthnVarsig
       ([0xD1, 0x5D, 0x80, 0x80, 0x80, 0x80, 0x08] @ replicate 2147483648 0 @ [0]
        @ replicate 64 0)
     = Inl (InvalidEd25519SignatureLength 2147483640)"
    by (rule decode_huge_authData) simp_all
qed

text \<open>
  C4. The claim: the decoder succeeds on an Ed25519 envelope only if the trailing
  signature has exactly 64 bytes (a remainder of 63 or 65 bytes fails with the
  invalid-signature-length error), and on a P-256 envelope only if it has 64 to 74 bytes
  (a remainder of 200 bytes fails similarly).
  This holds when authenticator data and client data are shorter than \<open>2^31\<close> bytes
  (\<open>decode_encode_bounded\<close>), as for the three envelopes with empty fields and
  signatures of 63, 65 and 200 bytes. With authenticator data of \<open>2^32 - 72\<close> bytes,
  empty client data and a 63-byte signature, the encoder writes the length prefix
  \<open>B8 FF FF FF 0F\<close>, the decoder reads it as \<open>-72\<close>, steps back to offset \<open>-65\<close>,
  reads a client data length of 0 there, and takes the last 64 bytes of the buffer, the
  client data length byte and the 63 signature bytes, as the signature: the envelope with
  the 63-byte signature is accepted. A 64-byte buffer that starts with the same tag and
  length prefix is accepted in the same way, the whole buffer being its signature.
\<close>

theorem short_signature_accepted_after_negative_length:
  "decodeWebAuthnVarsig ([0xD1, 0x5D, 0, 0] @ replicate 63 7)
     = Inl (InvalidEd25519SignatureLength 63)
   \<and> decodeWebAuthnVarsig ([0xD1, 0x5D, 0, 0] @ replicate 65 7)
     = Inl (InvalidEd25519SignatureLength 65)
   \<and> decodeWebAuthnVarsig ([0xD6, 0x44, 0, 0] @ replicate 200 7)
     = Inl (InvalidP256SignatureLength 200)
   \<and> encodeWebAuthnVarsig
     \<lparr>authenticatorData = replicate 4294967224 0, clientDataJSON = [],
      signature = replicate 63 7\<rparr> Ed25519
   = Inr ([0xD1, 0x5D, 0xB8, 0xFF, 0xFF, 0xFF, 0x0F] @ replicate 4294967224 0 @ [0]
          @ replicate 63 7)
   \<and> decodeWebAuthnVarsig
       ([0xD1, 0x5D, 0xB8, 0xFF, 0xFF, 0xFF, 0x0F] @ replicate 4294967224 0 @ [0]
        @ replicate 63 7)
     = Inr \<lparr>authenticatorData = replicate 4294967223 0, clientDataJSON = [],
            signature = 0 # replicate 63 7, multicodec = 0x2ed1,
            algorithm = Some Ed25519\<rparr>
   \<and> decodeWebAuthnVarsig ([0xD1, 0x5D, 0xB8, 0xFF, 0xFF, 0xFF, 0x0F] @ replicate 57 7)
     = Inr \<lparr>authenticatorData = [], clientDataJSON = [],
            signature = [0xD1, 0x5D, 0xB8, 0xFF, 0xFF, 0xFF, 0x0F] @ replicate 57 7,
            multicodec = 0x2ed1, algorithm = Some Ed25519\<rparr>"
proof (intro conjI)
  show "decodeWebAuthnVarsig ([0xD1, 0x5D, 0, 0] @ replicate 63 7)
     = Inl (InvalidEd25519SignatureLength 63)"
    by code_simp
  show "decodeWebAuthnVarsig ([0xD1, 0x5D, 0, 0] @ replicate 65 7)
     = Inl (InvalidEd25519SignatureLength 65)"
    by code_simp
  show "decodeWebAuthnVarsig ([0xD6, 0x44, 0, 0] @ replicate 200 7)
     = Inl (InvalidP256SignatureLength 200)"
    by code_simp
  show "encodeWebAuthnVarsig
     \<lparr>authenticatorData = replicate 4294967224 0, clientDataJSON = [],
      signature = replicate 63 7\<rparr> Ed25519
   = Inr ([0xD1, 0x5D, 0xB8, 0xFF, 0xFF, 0xFF, 0x0F] @ replicate 4294967224 0 @ [0]
          @ replicate 63 7)"
    by (simp add: encodeWebAuthnVarsig_eq varintEncode_tags varintEncode_2_32_minus_72)
  have "decodeWebAuthnVarsig
       ([0xD1, 0x5D, 0xB8, 0xFF, 0xFF, 0xFF, 0x0F] @ replicate 4294967224 0 @ [0]
        @ replicate 63 7)
     = Inr \<lparr>authenticatorData = take 4294967223 (replicate 4294967224 0), clientDataJSON = [],
            signature = 0 # replicate 63 7, multicodec = 0x2ed1,
            algorithm = Some Ed25519\<rparr>"
    by (rule decode_authData_2_32_minus_72) simp_all
  then show "decodeWebAuthnVarsig
       ([0xD1, 0x5D, 0xB8, 0xFF, 0xFF, 0xFF, 0x0F] @ replicate 4294967224 0 @ [0]
        @ replicate 63 7)
     = Inr \<lparr>authenticatorData = replicate 4294967223 0, clientDataJSON = [],
            signature = 0 # replicate 63 7, multicodec = 0x2ed1,
            algorithm = Some Ed25519\<rparr>"
    by simp
  show "decodeWebAuthnVarsig ([0xD1, 0x5D, 0xB8, 0xFF, 0xFF, 0xFF, 0x0F] @ replicate 57 7)
     = Inr \<lparr>authenticatorData = [], clientDataJSON = [],
            signature = [0xD1, 0x5D, 0xB8, 0xFF, 0xFF, 0xFF, 0x0F] @ replicate 57 7,
            multicodec = 0x2ed1, algorithm = Some Ed25519\<rparr>"
    by code_simp
qed

text \<open>
  C5. The claim: a decoded envelope whose flags byte (offset 32 of the authenticator data)
  is \<open>0x01\<close> and which passes the type, origin and challenge checks is valid when
  \<open>requireUserVerification\<close> is false, and invalid with the user-verification failure
  when it is true or omitted.
  As stated this fails for authenticator data of 33 to 36 bytes, which the check before
  the flags rejects. With authenticator data of at least 37 bytes it holds.
\<close>

theorem user_verification_gate:
  assumes parse: "parseClientDataJSON json_parse (clientDataJSON decoded) = Inr cd"
    and ty: "ctype cd = JStr ''webauthn.get''"
    and orig: "origin cd = JStr (expectedOrigin options)"
    and ch: "challenge cd = JStr ch" "base64urlToBytes ch = Inr cb"
            "bytesEqual cb (expectedChallenge options)"
    and len: "37 \<le> length (authenticatorData decoded)"
    and fl: "authenticatorData decoded ! 32 = 0x01"
  shows "verifyWebAuthnAssertion json_parse decoded options =
     (if requireUserVerification options = Some False
      then Inr \<lparr>valid = True, error = None, clientData = Some cd,
                flags = Some \<lparr>userPresent = True, userVerified = False,
                              backupEligible = False, backupState = False\<rparr>\<rparr>
      else Inr (failed UserVerificationFlagNotSet))"
proof -
  have b: "to_number (elem (authenticatorData decoded) 32) = 1"
    using flags_byte [OF len] fl by simp
  have l: "\<not> length (authenticatorData decoded) < 37" using len by simp
  show ?thesis
    unfolding verifyWebAuthnAssertion_def verifyWebAuthnAssertion_try_def
    by (simp add: parse ty orig ch b l flags_of_01 Let_def)
qed

text \<open>The sample assertion with 37 bytes of authenticator data, flags \<open>0x01\<close>.\<close>

theorem user_verification_gate_witness:
  "verifyWebAuthnAssertion json_parse_sample
     (sample_decoded (replicate 32 0 @ [0x01] @ replicate 4 0) clientData_get)
     (sample_options (Some False))
   = Inr \<lparr>valid = True, error = None,
          clientData = Some \<lparr>ctype = JStr ''webauthn.get'', challenge = JStr ''AQID'',
                              origin = JStr ''https://example.com'',
                              crossOrigin = JBool False\<rparr>,
          flags = Some \<lparr>userPresent = True, userVerified = False,
                        backupEligible = False, backupState = False\<rparr>\<rparr>
   \<and> verifyWebAuthnAssertion json_parse_sample
       (sample_decoded (replicate 32 0 @ [0x01] @ replicate 4 0) clientData_get)
       (sample_options (Some True))
     = Inr (failed UserVerificationFlagNotSet)
   \<and> verifyWebAuthnAssertion json_parse_sample
       (sample_decoded (replicate 32 0 @ [0x01] @ replicate 4 0) clientData_get)
       (sample_options None)
     = Inr (failed UserVerificationFlagNotSet)"
proof -
  let ?d = "sample_decoded (replicate 32 0 @ [0x01] @ replicate 4 0) clientData_get"
  let ?cd = "\<lparr>ctype = JStr ''webauthn.get'', challenge = JStr ''AQID'',
              origin = JStr ''https://example.com'', crossOrigin = JBool False\<rparr>"
  have parse: "parseClientDataJSON json_parse_sample (clientDataJSON ?d) = Inr ?cd"
    by code_simp
  have ty: "ctype ?cd = JStr ''webauthn.get''" by simp
  have orig: "origin ?cd = JStr (expectedOrigin (sample_options ruv))" for ruv
    by (simp add: sample_options_def)
  have ch: "challenge ?cd = JStr ''AQID''" by simp
  have b64: "base64urlToBytes ''AQID'' = Inr [1, 2, 3]" by code_simp
  have eq: "bytesEqual [1, 2, 3] (expectedChallenge (sample_options ruv))" for ruv
    by (simp add: sample_options_def bytesEqual_def)
  have len: "37 \<le> length (authenticatorData ?d)" by (simp add: sample_decoded_def)
  have fl: "authenticatorData ?d ! 32 = 0x01" by (simp add: sample_decoded_def nth_append)
  note g = user_verification_gate [OF parse ty orig ch b64 eq len fl]
  show ?thesis
    using g [of "Some False"] g [of "Some True"] g [of None]
    by (simp add: sample_options_def)
qed

text \<open>
  The same with 33 bytes of authenticator data: the flags byte is \<open>0x01\<close>, the type,
  origin and challenge checks pass, user verification is not required, and the result is
  invalid.
\<close>

theorem user_verification_gate_needs_37_bytes:
  "parseClientDataJSON json_parse_sample clientData_get
     = Inr \<lparr>ctype = JStr ''webauthn.get'', challenge = JStr ''AQID'',
            origin = JStr ''https://example.com'', crossOrigin = JBool False\<rparr>
   \<and> base64urlToBytes ''AQID'' = Inr [1, 2, 3]
   \<and> (replicate 32 0 @ [0x01 :: byte]) ! 32 = 0x01
   \<and> verifyWebAuthnAssertion json_parse_sample
       (sample_decoded (replicate 32 0 @ [0x01]) clientData_get)
       (sample_options (Some False))
     = Inr \<lparr>valid = False, error = Some (AuthenticatorDataTooShort 33),
            clientData = None, flags = None\<rparr>"
  by code_simp







text \<open>
  C8. For every algorithm and all byte strings, without precondition, the encoder returns
  \<open>varintEncode(tag) || varintEncode(len(authData)) || authData ||
  varintEncode(len(clientData)) || clientData || signature\<close>: the signature is last and
  has no length prefix.
\<close>

theorem encodeWebAuthnVarsig_is_concatenation:
  "encodeWebAuthnVarsig assertion alg =
     Inr (varintEncode (ALGORITHM_TO_MULTICODEC alg)
          @ varintEncode (int (length (authenticatorData assertion)))
          @ authenticatorData assertion
          @ varintEncode (int (length (clientDataJSON assertion)))
          @ clientDataJSON assertion
          @ signature assertion)"
  by (simp add: encodeWebAuthnVarsig_def concat_arrays_eq)

text \<open>
  C9. The identifier of a public key is \<open>did:key:\<close> followed by the base58btc text of
  the tag bytes and the key: the tag is \<open>[0xed, 0x01]\<close> for an Ed25519 key and the varint
  encoding of \<open>0x1200\<close>, \<open>[0x80, 0x24]\<close>, for a P-256 key. The tags differ, the two
  constructors never give the same identifier, decoding the identifier gives back tag and
  key, and \<open>extractPublicKeyFromDid\<close> returns the key. The base58btc codec is a parameter;
  what is used of it is that it decodes these two encodings and that they start with the
  multibase prefix \<open>z\<close>.
\<close>

theorem did_key_identifier:
  assumes ed: "dec (enc ([0xed, 0x01] @ pk)) = Inr ([0xed, 0x01] @ pk)"
    and edz: "take 1 (enc ([0xed, 0x01] @ pk)) = ''z''"
    and p256: "dec (enc ([0x80, 0x24] @ pk')) = Inr ([0x80, 0x24] @ pk')"
    and p256z: "take 1 (enc ([0x80, 0x24] @ pk')) = ''z''"
  shows "createEd25519Did enc pk = Inr (''did:key:'' @ enc ([0xed, 0x01] @ pk))
       \<and> createP256Did enc pk' = Inr (''did:key:'' @ enc (varintEncode P256_PUB @ pk'))
       \<and> varintEncode P256_PUB = [0x80, 0x24]
       \<and> varintEncode P256_PUB \<noteq> [0xed, 0x01]
       \<and> createEd25519Did enc pk \<noteq> createP256Did enc pk'
       \<and> dec (slice_from (''did:key:'' @ enc ([0xed, 0x01] @ pk)) 8) = Inr ([0xed, 0x01] @ pk)
       \<and> dec (slice_from (''did:key:'' @ enc ([0x80, 0x24] @ pk')) 8) = Inr ([0x80, 0x24] @ pk')
       \<and> extractPublicKeyFromDid dec (''did:key:'' @ enc ([0xed, 0x01] @ pk)) = Inr pk
       \<and> extractPublicKeyFromDid dec (''did:key:'' @ enc ([0x80, 0x24] @ pk')) = Inr pk'"
proof -
  have c1: "createEd25519Did enc pk = Inr (''did:key:'' @ enc ([0xed, 0x01] @ pk))"
    by (rule createEd25519Did_eq)
  have c2: "createP256Did enc pk' = Inr (''did:key:'' @ enc (varintEncode P256_PUB @ pk'))"
    unfolding varintEncode_pub_tags by (rule createP256Did_eq)
  have t1: "varintEncode P256_PUB = [0x80, 0x24]" by (rule varintEncode_pub_tags)
  have t2: "varintEncode P256_PUB \<noteq> [0xed, 0x01]" unfolding t1 by simp
  have ne: "enc ([0xed, 0x01] @ pk) \<noteq> enc ([0x80, 0x24] @ pk')"
  proof
    assume "enc ([0xed, 0x01] @ pk) = enc ([0x80, 0x24] @ pk')"
    then have "dec (enc ([0xed, 0x01] @ pk)) = dec (enc ([0x80, 0x24] @ pk'))" by simp
    then show False using ed p256 by simp
  qed
  have c3: "createEd25519Did enc pk \<noteq> createP256Did enc pk'"
    unfolding c1 c2 t1 using ne by simp
  have s: "slice_from (''did:key:'' @ t) 8 = t" for t :: string
    using slice_from_append [of "''did:key:''" t] by simp
  have y1: "dec (slice_from (''did:key:'' @ enc ([0xed, 0x01] @ pk)) 8) = Inr ([0xed, 0x01] @ pk)"
    unfolding s by (rule ed)
  have y2: "dec (slice_from (''did:key:'' @ enc ([0x80, 0x24] @ pk')) 8)
      = Inr ([0x80, 0x24] @ pk')"
    unfolding s by (rule p256)
  have x1: "extractPublicKeyFromDid dec (''did:key:'' @ enc ([0xed, 0x01] @ pk)) = Inr pk"
    using extractPublicKeyFromDid_eq [of dec enc "0xed" "0x01" pk] ed edz by simp
  have x2: "extractPublicKeyFromDid dec (''did:key:'' @ enc ([0x80, 0x24] @ pk')) = Inr pk'"
    using extractPublicKeyFromDid_eq [of dec enc "0x80" "0x24" pk'] p256 p256z by simp
  show ?thesis using c1 c2 t1 t2 c3 y1 y2 x1 x2 by blast
qed

text \<open>
  With the base58btc model: a 32-byte Ed25519 key, whose identifier starts with \<open>z6Mk\<close>,
  and a 65-byte P-256 key.
\<close>

theorem did_key_identifier_witness:
  "createEd25519Did base58btc_encode (replicate 32 7)
     = Inr ''did:key:z6Mkevh7bMWWUda468bFjfFGtDxLXgkG8L46bsaXEwHD9Z3L''
   \<and> extractPublicKeyFromDid base58btc_decode
       ''did:key:z6Mkevh7bMWWUda468bFjfFGtDxLXgkG8L46bsaXEwHD9Z3L''
     = Inr (replicate 32 7)
   \<and> extractPublicKeyFromDid base58btc_decode
       (''did:key:'' @ base58btc_encode ([0x80, 0x24] @ 4 # replicate 64 7))
     = Inr (4 # replicate 64 7)"
proof -
  let ?e = "''z6Mkevh7bMWWUda468bFjfFGtDxLXgkG8L46bsaXEwHD9Z3L''"
  have e1: "base58btc_encode ([0xed, 0x01] @ replicate 32 7) = ?e" by code_simp
  have h1: "base58btc_decode (base58btc_encode ([0xed, 0x01] @ replicate 32 7))
      = Inr ([0xed, 0x01] @ replicate 32 7)" by (rule base58btc_roundtrip)
  have z1: "take 1 (base58btc_encode ([0xed, 0x01] @ replicate 32 7)) = ''z''"
    by (simp add: base58btc_encode_def)
  have h2: "base58btc_decode (base58btc_encode ([0x80, 0x24] @ 4 # replicate 64 7))
      = Inr ([0x80, 0x24] @ 4 # replicate 64 7)" by (rule base58btc_roundtrip)
  have z2: "take 1 (base58btc_encode ([0x80, 0x24] @ 4 # replicate 64 7)) = ''z''"
    by (simp add: base58btc_encode_def)
  note t = did_key_identifier [OF h1 z1 h2 z2]
  have a: "createEd25519Did base58btc_encode (replicate 32 7) = Inr (''did:key:'' @ ?e)"
    using t e1 by (simp only:)
  have b: "extractPublicKeyFromDid base58btc_decode (''did:key:'' @ ?e) = Inr (replicate 32 7)"
    using t e1 by (simp only:)
  have d: "extractPublicKeyFromDid base58btc_decode
       (''did:key:'' @ base58btc_encode ([0x80, 0x24] @ 4 # replicate 64 7))
      = Inr (4 # replicate 64 7)"
    using t by (simp only:)
  show ?thesis using a b d by (simp only: append.simps)
qed

text \<open>
  C10. The base64url text wrapping round-trips: for every byte string \<open>b\<close>,
  \<open>base64urlToBytes(bytesToBase64url(b))\<close> is \<open>b\<close>, and the text contains none of the
  characters \<open>+\<close>, \<open>/\<close> and \<open>=\<close>.
\<close>

theorem base64url_roundtrip:
  "base64urlToBytes (bytesToBase64url b) = Inr b
   \<and> CHR ''+'' \<notin> set (bytesToBase64url b)
   \<and> CHR ''/'' \<notin> set (bytesToBase64url b)
   \<and> CHR ''='' \<notin> set (bytesToBase64url b)"
proof -
  let ?ns = "map unat b"
  let ?body = "map b64char (sextets ?ns)"
  have lt: "\<forall>n \<in> set ?ns. n < 256"
  proof
    fix n assume "n \<in> set ?ns"
    then obtain x :: byte where "n = unat x" by auto
    then show "n < 256" using byte_lt_256 [of x] by simp
  qed
  have inalpha: "\<forall>c \<in> set ?body. c \<in> set b64chars"
    using sextets_bound [OF lt] by (auto simp: b64char_in)
  have url: "bytesToBase64url b = map to_url ?body" by (rule bytesToBase64url_eq)
  have restore: "replace_char CHR ''_'' ''/'' (replace_char CHR ''-'' ''+'' (map to_url ?body))
      = ?body"
    using inalpha by (rule from_url_to_url)
  have pad: "replicate ((4 - length ?body mod 4) mod 4) CHR ''='' = b64pad (length ?ns)"
    by (simp only: length_map sextets_length b64_padding_length b64pad_def)
  have dec: "base64urlToBytes (map to_url ?body) = Inr b"
    unfolding base64urlToBytes_def Let_def restore pad
    using atob_btoa_groups [OF lt] bytes_of_binary_string [of b]
    by (simp del: map_map)
  have none: "CHR ''+'' \<notin> set (map to_url ?body)" "CHR ''/'' \<notin> set (map to_url ?body)"
    "CHR ''='' \<notin> set (map to_url ?body)"
    using to_url_avoids [OF inalpha] by simp_all
  show ?thesis unfolding url using dec none by simp
qed

text \<open>The byte string of the repository's unit test.\<close>

theorem base64url_roundtrip_witness:
  "bytesToBase64url [1, 2, 3, 4, 5, 255, 254] = ''AQIDBAX__g''
   \<and> base64urlToBytes ''AQIDBAX__g'' = Inr [1, 2, 3, 4, 5, 255, 254]"
proof -
  have e: "bytesToBase64url [1, 2, 3, 4, 5, 255, 254] = ''AQIDBAX__g''" by code_simp
  show ?thesis using base64url_roundtrip [of "[1, 2, 3, 4, 5, 255, 254]"] e by simp
qed

end
